theory Spec2Isabelle
  imports Complex_Main
begin

section \<open>Circles intersection, MPI version (mpi-circles.c)\<close>

text \<open>
  The simulation kernel of \<^verbatim>\<open>src/mpi-circles.c\<close>: the circle array, the
  functions \<^verbatim>\<open>reset_displacements\<close>, \<^verbatim>\<open>compute_forces\<close> and \<^verbatim>\<open>move_circles\<close>, the
  partition of the index range computed in \<^verbatim>\<open>main\<close>, and the body of the iteration
  loop of \<^verbatim>\<open>main\<close> with its three collectives.

  Conventions of the model.
  \<^item> A C \<^verbatim>\<open>float\<close> is a \<open>real\<close>: the constants have their binary32 values, but the
    rounding of operations, infinities and NaN are not represented. The one operation of the kernel whose result is not a number
    when the operands are numbers, a division by zero, is an error value of the model.
  \<^item> The global array \<^verbatim>\<open>circles\<close> is a list and the global \<^verbatim>\<open>ncircles\<close> is its
    length (the array is allocated with exactly \<^verbatim>\<open>ncircles\<close> elements).
  \<^item> Indices, ranks and counters are C \<^verbatim>\<open>int\<close>s that are never negative in the
    program; they are \<open>nat\<close>. The bounds of a rank's range are products of two
    \<^verbatim>\<open>int\<close>s, which can overflow: they are \<open>int\<close> with the wrap-around written out.
  \<^item> A failing \<^verbatim>\<open>assert\<close> and an access outside the array are error values.
  \<^item> The MPI processes own private memory and meet only in collectives, so one
    iteration of all ranks is a function on the list of the ranks' arrays.
\<close>

subsection \<open>Data\<close>

record circle_t =
  x :: real
  y :: real
  r :: real
  dx :: real
  dy :: real

text \<open>
  \<^verbatim>\<open>const float EPSILON = 1e-5\<close> holds the binary32 number nearest to \<open>1e-5\<close>, which is
  \<open>2748779 / 2^38\<close>, a little below \<open>1 / 100000\<close>. \<^verbatim>\<open>const float K = 1.5\<close> is exact.
\<close>

definition EPSILON :: real where
  "EPSILON = 2748779 / 274877906944"

definition K :: real where
  "K = 3 / 2"

datatype error = AssertionFailed | DivisionByZero | OutOfBounds

subsection \<open>Arithmetic of the C library\<close>

definition hypotf :: "real \<Rightarrow> real \<Rightarrow> real" where
  "hypotf a b = sqrt (a * a + b * b)"

definition sqrtf :: "real \<Rightarrow> real" where
  "sqrtf a = sqrt a"

definition fdiv :: "real \<Rightarrow> real \<Rightarrow> error + real" where
  "fdiv a b = (if b = 0 then Inl DivisionByZero else Inr (a / b))"

subsection \<open>Sequencing of fallible steps\<close>

definition ebind :: "error + 'a \<Rightarrow> ('a \<Rightarrow> error + 'b) \<Rightarrow> error + 'b" where
  "ebind m f = (case m of Inl e \<Rightarrow> Inl e | Inr v \<Rightarrow> f v)"

fun efold :: "('a \<Rightarrow> 's \<Rightarrow> error + 's) \<Rightarrow> 'a list \<Rightarrow> 's \<Rightarrow> error + 's" where
  "efold f [] s = Inr s"
| "efold f (a # as) s = ebind (f a s) (efold f as)"

fun emap :: "('a \<Rightarrow> error + 'b) \<Rightarrow> 'a list \<Rightarrow> error + 'b list" where
  "emap f [] = Inr []"
| "emap f (a # as) = ebind (f a) (\<lambda>b. ebind (emap f as) (\<lambda>bs. Inr (b # bs)))"

subsection \<open>reset_displacements\<close>

definition reset_displacements :: "circle_t list \<Rightarrow> circle_t list" where
  "reset_displacements circles =
     fold (\<lambda>i cs. cs[i := (cs ! i)\<lparr>dx := 0, dy := 0\<rparr>]) [0..<length circles] circles"

subsection \<open>compute_forces\<close>

definition sub_dx :: "nat \<Rightarrow> real \<Rightarrow> circle_t list \<Rightarrow> circle_t list" where
  "sub_dx i v cs = cs[i := (cs ! i)\<lparr>dx := dx (cs ! i) - v\<rparr>]"

definition sub_dy :: "nat \<Rightarrow> real \<Rightarrow> circle_t list \<Rightarrow> circle_t list" where
  "sub_dy i v cs = cs[i := (cs ! i)\<lparr>dy := dy (cs ! i) - v\<rparr>]"

definition add_dx :: "nat \<Rightarrow> real \<Rightarrow> circle_t list \<Rightarrow> circle_t list" where
  "add_dx j v cs = cs[j := (cs ! j)\<lparr>dx := dx (cs ! j) + v\<rparr>]"

definition add_dy :: "nat \<Rightarrow> real \<Rightarrow> circle_t list \<Rightarrow> circle_t list" where
  "add_dy j v cs = cs[j := (cs ! j)\<lparr>dy := dy (cs ! j) + v\<rparr>]"

text \<open>
  The overlap vector of lines 156 to 167: the fixed diagonal direction when the
  centres coincide, the direction from \<open>i\<close> to \<open>j\<close> otherwise.
\<close>

definition overlap_xy :: "real \<Rightarrow> real \<Rightarrow> real \<Rightarrow> real \<Rightarrow> error + (real \<times> real)" where
  "overlap_xy overlap distance deltax deltay =
     (if distance < EPSILON then
        ebind (fdiv overlap (sqrtf 2)) (\<lambda>overlap_x.
        ebind (fdiv overlap (sqrtf 2)) (\<lambda>overlap_y.
        Inr (overlap_x, overlap_y)))
      else
        ebind (fdiv overlap distance) (\<lambda>qx.
        ebind (fdiv overlap distance) (\<lambda>qy.
        Inr (qx * deltax, qy * deltay))))"

text \<open>The four updates of lines 168 to 171, in the order of the source.\<close>

definition apply_overlap ::
  "nat \<Rightarrow> nat \<Rightarrow> real \<Rightarrow> real \<Rightarrow> circle_t list \<Rightarrow> error + circle_t list" where
  "apply_overlap i j overlap_x overlap_y circles =
     ebind (fdiv overlap_x K) (\<lambda>v1.
     ebind (fdiv overlap_y K) (\<lambda>v2.
     ebind (fdiv overlap_x K) (\<lambda>v3.
     ebind (fdiv overlap_y K) (\<lambda>v4.
     Inr (add_dy j v4 (add_dx j v3 (sub_dy i v2 (sub_dx i v1 circles))))))))"

text \<open>The body of the inner loop (lines 145 to 172) for one pair \<open>(i, j)\<close>.\<close>

definition pair_step ::
  "nat \<Rightarrow> nat \<Rightarrow> nat \<times> circle_t list \<Rightarrow> error + (nat \<times> circle_t list)" where
  "pair_step i j s =
     (case s of (n_intersections, circles) \<Rightarrow>
        if i = j then Inr (n_intersections, circles)
        else if \<not> (i < length circles \<and> j < length circles) then Inl OutOfBounds
        else
          let deltax = x (circles ! j) - x (circles ! i);
              deltay = y (circles ! j) - y (circles ! i);
              dist = hypotf deltax deltay;
              Rsum = r (circles ! i) + r (circles ! j)
          in if dist < Rsum - EPSILON then
               let overlap = Rsum - dist
               in if \<not> (overlap > 0) then Inl AssertionFailed
                  else
                    ebind (overlap_xy overlap dist deltax deltay) (\<lambda>(overlap_x, overlap_y).
                    ebind (apply_overlap i j overlap_x overlap_y circles) (\<lambda>circles'.
                    Inr (n_intersections + 1, circles')))
             else Inr (n_intersections, circles))"

definition compute_forces ::
  "nat \<Rightarrow> nat \<Rightarrow> circle_t list \<Rightarrow> error + (nat \<times> circle_t list)" where
  "compute_forces start end_idx circles =
     efold (\<lambda>i. efold (\<lambda>j. pair_step i j) [0..<length circles])
       [start..<end_idx] (0, circles)"

subsection \<open>move_circles\<close>

definition move_circles :: "circle_t list \<Rightarrow> circle_t list" where
  "move_circles circles =
     fold (\<lambda>i cs.
             let cs1 = cs[i := (cs ! i)\<lparr>x := x (cs ! i) + dx (cs ! i)\<rparr>]
             in cs1[i := (cs1 ! i)\<lparr>y := y (cs1 ! i) + dy (cs1 ! i)\<rparr>])
       [0..<length circles] circles"

subsection \<open>The partition of main (lines 269 and 270)\<close>

text \<open>
  \<^verbatim>\<open>rank\<close>, \<^verbatim>\<open>ncircles\<close> and \<^verbatim>\<open>size\<close> are 32-bit \<^verbatim>\<open>int\<close>s, and so are the products of
  lines 269 and 270: a product outside the range of \<^verbatim>\<open>int\<close> wraps around (two's
  complement). The division of C truncates towards zero.
\<close>

definition wrap_int :: "int \<Rightarrow> int" where
  "wrap_int v = (v + 2147483648) mod 4294967296 - 2147483648"

definition div_int :: "int \<Rightarrow> int \<Rightarrow> int" where
  "div_int a b = sgn a * sgn b * (\<bar>a\<bar> div \<bar>b\<bar>)"

definition part_start :: "int \<Rightarrow> int \<Rightarrow> int \<Rightarrow> int" where
  "part_start rank ncircles comm_size = div_int (wrap_int (rank * ncircles)) comm_size"

definition part_end :: "int \<Rightarrow> int \<Rightarrow> int \<Rightarrow> int" where
  "part_end rank ncircles comm_size =
     div_int (wrap_int (wrap_int (rank + 1) * ncircles)) comm_size"

subsection \<open>The collectives\<close>

text \<open>
  \<^verbatim>\<open>MPI_Reduce\<close> with \<^verbatim>\<open>MPI_SUM\<close> on one \<^verbatim>\<open>int\<close> per rank: the root receives the sum.
\<close>

definition MPI_Reduce_SUM :: "nat list \<Rightarrow> nat" where
  "MPI_Reduce_SUM local_values = sum_list local_values"

text \<open>
  \<^verbatim>\<open>MPI_Allgather\<close> with \<^verbatim>\<open>MPI_IN_PLACE\<close> and a receive count of \<open>cnt\<close> array
  elements per rank: in every rank's buffer, block \<open>k\<close> (the elements
  \<open>k * cnt ..< (k + 1) * cnt\<close>) becomes block \<open>k\<close> of the buffer of rank \<open>k\<close>;
  elements beyond the last block keep the rank's own value.
\<close>

definition MPI_Allgather_IN_PLACE :: "nat \<Rightarrow> 'a list list \<Rightarrow> 'a list list" where
  "MPI_Allgather_IN_PLACE cnt bufs =
     map (\<lambda>buf. map (\<lambda>c. if c < length bufs * cnt then bufs ! (c div cnt) ! c else buf ! c)
                   [0..<length buf]) bufs"

text \<open>\<^verbatim>\<open>MPI_Bcast\<close>: every rank's buffer becomes the buffer of the root.\<close>

definition MPI_Bcast :: "nat \<Rightarrow> 'a list \<Rightarrow> 'a list" where
  "MPI_Bcast root_rank bufs = map (\<lambda>_. bufs ! root_rank) bufs"

subsection \<open>The iteration loop of main (lines 264 to 293)\<close>

text \<open>
  What one rank does between the start of an iteration and the reduction: lines
  267 to 272. The result is the rank's \<^verbatim>\<open>local_overlaps\<close> and its array. The loop of
  \<^verbatim>\<open>compute_forces\<close> runs \<open>i\<close> from \<^verbatim>\<open>start\<close> while \<open>i < end\<close>: when \<^verbatim>\<open>start\<close> is negative
  and below \<^verbatim>\<open>end\<close>, its first access \<^verbatim>\<open>circles[start]\<close> is outside the array (unless the
  array is empty, when the inner loop never runs); otherwise the indices it visits are
  those of \<open>compute_forces\<close> with the two bounds as natural numbers.
\<close>

definition local_compute :: "nat \<Rightarrow> nat \<Rightarrow> circle_t list \<Rightarrow> error + (nat \<times> circle_t list)" where
  "local_compute comm_size rank circles =
     (let circles1 = reset_displacements circles;
          start = part_start (int rank) (int (length circles1)) (int comm_size);
          end_idx = part_end (int rank) (int (length circles1)) (int comm_size)
      in if start < end_idx \<and> start < 0 \<and> 0 < length circles1 then Inl OutOfBounds
         else compute_forces (nat start) (nat end_idx) circles1)"

text \<open>
  The arrays of all ranks after the in-place gather of line 278, from the
  per-rank results of \<open>local_compute\<close>.
\<close>

definition gather_displacements :: "nat \<Rightarrow> (nat \<times> circle_t list) list \<Rightarrow> circle_t list list" where
  "gather_displacements ncircles locals =
     MPI_Allgather_IN_PLACE (ncircles div length locals) (map snd locals)"

text \<open>
  One iteration of all ranks. \<open>world ! rank\<close> is the array of \<open>rank\<close>; the result
  is \<^verbatim>\<open>total_overlaps\<close> as rank 0 prints it, and the arrays after the broadcast of
  line 283.
\<close>

definition iteration :: "nat \<Rightarrow> circle_t list list \<Rightarrow> error + (nat \<times> circle_t list list)" where
  "iteration ncircles world =
     ebind (emap (\<lambda>rank. local_compute (length world) rank (world ! rank)) [0..<length world])
       (\<lambda>locals.
          let total_overlaps = MPI_Reduce_SUM (map fst locals);
              gathered = gather_displacements ncircles locals;
              moved = map move_circles gathered
          in Inr (total_overlaps, MPI_Bcast 0 moved))"

fun iterations_loop ::
  "nat \<Rightarrow> nat \<Rightarrow> circle_t list list \<Rightarrow> error + (nat list \<times> circle_t list list)" where
  "iterations_loop ncircles 0 world = Inr ([], world)"
| "iterations_loop ncircles (Suc k) world =
     ebind (iteration ncircles world) (\<lambda>(total_overlaps, world').
     ebind (iterations_loop ncircles k world') (\<lambda>(totals, final).
     Inr (total_overlaps # totals, final)))"

text \<open>
  A run of \<open>comm_size\<close> ranks from the array \<open>circles0\<close> that rank 0 initialised and
  broadcast (lines 248 to 258): the overlap totals printed, one per iteration, and
  the arrays of all ranks at the end.
\<close>

definition run :: "nat \<Rightarrow> nat \<Rightarrow> circle_t list \<Rightarrow> error + (nat list \<times> circle_t list list)" where
  "run comm_size iterations circles0 =
     iterations_loop (length circles0) iterations (replicate comm_size circles0)"

subsection \<open>What one pair contributes\<close>

text \<open>
  The quantities that the body of the inner loop computes for a pair \<open>(i, j)\<close>, as
  functions of the array: the distance of the centres, the overlap test of line 151,
  the overlap vector of lines 156 to 167 and the displacement \<open>overlap / K\<close> of lines
  168 to 171. They read only the fields \<open>x\<close>, \<open>y\<close> and \<open>r\<close>.
\<close>

definition dist_ij :: "circle_t list \<Rightarrow> nat \<Rightarrow> nat \<Rightarrow> real" where
  "dist_ij cs i j = hypotf (x (cs ! j) - x (cs ! i)) (y (cs ! j) - y (cs ! i))"

definition overlapping :: "circle_t list \<Rightarrow> nat \<Rightarrow> nat \<Rightarrow> bool" where
  "overlapping cs i j \<longleftrightarrow> i \<noteq> j \<and> dist_ij cs i j < r (cs ! i) + r (cs ! j) - EPSILON"

definition overlap_x :: "circle_t list \<Rightarrow> nat \<Rightarrow> nat \<Rightarrow> real" where
  "overlap_x cs i j =
     (let d = dist_ij cs i j; overlap = r (cs ! i) + r (cs ! j) - d
      in if d < EPSILON then overlap / sqrtf 2 else overlap / d * (x (cs ! j) - x (cs ! i)))"

definition overlap_y :: "circle_t list \<Rightarrow> nat \<Rightarrow> nat \<Rightarrow> real" where
  "overlap_y cs i j =
     (let d = dist_ij cs i j; overlap = r (cs ! i) + r (cs ! j) - d
      in if d < EPSILON then overlap / sqrtf 2 else overlap / d * (y (cs ! j) - y (cs ! i)))"

definition push_x :: "circle_t list \<Rightarrow> nat \<Rightarrow> nat \<Rightarrow> real" where
  "push_x cs i j = overlap_x cs i j / K"

definition push_y :: "circle_t list \<Rightarrow> nat \<Rightarrow> nat \<Rightarrow> real" where
  "push_y cs i j = overlap_y cs i j / K"

text \<open>The four updates of one overlapping pair, as one function.\<close>

definition shift :: "nat \<Rightarrow> nat \<Rightarrow> real \<Rightarrow> real \<Rightarrow> circle_t list \<Rightarrow> circle_t list" where
  "shift i j vx vy cs = add_dy j vy (add_dx j vx (sub_dy i vy (sub_dx i vx cs)))"

text \<open>
  What the pair \<open>(i, j)\<close> adds to the displacement of circle \<open>c\<close>: nothing unless the
  pair overlaps, then \<open>+ overlap / K\<close> when \<open>c\<close> is \<open>j\<close> and \<open>- overlap / K\<close> when \<open>c\<close> is \<open>i\<close>.
\<close>

definition disp_x :: "circle_t list \<Rightarrow> nat \<Rightarrow> nat \<Rightarrow> nat \<Rightarrow> real" where
  "disp_x cs i j c =
     (if overlapping cs i j
      then (if c = j then push_x cs i j else 0) - (if c = i then push_x cs i j else 0)
      else 0)"

definition disp_y :: "circle_t list \<Rightarrow> nat \<Rightarrow> nat \<Rightarrow> nat \<Rightarrow> real" where
  "disp_y cs i j c =
     (if overlapping cs i j
      then (if c = j then push_y cs i j else 0) - (if c = i then push_y cs i j else 0)
      else 0)"

text \<open>The array after the pairs \<open>ps\<close> have been processed in this order, in closed form.\<close>

definition accum :: "circle_t list \<Rightarrow> (nat \<times> nat) list \<Rightarrow> circle_t list" where
  "accum cs ps =
     map (\<lambda>c. (cs ! c)\<lparr>dx := dx (cs ! c) + sum_list (map (\<lambda>(i, j). disp_x cs i j c) ps),
                        dy := dy (cs ! c) + sum_list (map (\<lambda>(i, j). disp_y cs i j c) ps)\<rparr>)
       [0..<length cs]"

text \<open>The pairs that \<^verbatim>\<open>compute_forces(start, end)\<close> visits, in the order of the two loops.\<close>

definition scanned :: "nat \<Rightarrow> nat \<Rightarrow> nat \<Rightarrow> (nat \<times> nat) list" where
  "scanned start end_idx ncircles = List.product [start..<end_idx] [0..<ncircles]"

subsection \<open>One rank and all ranks, in closed form\<close>

text \<open>
  The bounds of lines 269 and 270 as exact quotients of natural numbers: what
  \<open>part_start\<close> and \<open>part_end\<close> are when no product overflows.
\<close>

definition share_start :: "nat \<Rightarrow> nat \<Rightarrow> nat \<Rightarrow> nat" where
  "share_start rank ncircles comm_size = (rank * ncircles) div comm_size"

definition share_end :: "nat \<Rightarrow> nat \<Rightarrow> nat \<Rightarrow> nat" where
  "share_end rank ncircles comm_size = ((rank + 1) * ncircles) div comm_size"

text \<open>The result of \<open>local_compute\<close> for a rank of the communicator, in closed form.\<close>

definition local_pairs :: "nat \<Rightarrow> nat \<Rightarrow> nat \<Rightarrow> (nat \<times> nat) list" where
  "local_pairs comm_size rank ncircles =
     scanned (share_start rank ncircles comm_size) (share_end rank ncircles comm_size) ncircles"

definition local_result :: "nat \<Rightarrow> circle_t list \<Rightarrow> nat \<Rightarrow> nat \<times> circle_t list" where
  "local_result comm_size cs rank =
     (length (filter (\<lambda>(i, j). overlapping (reset_displacements cs) i j)
                (local_pairs comm_size rank (length cs))),
      accum (reset_displacements cs) (local_pairs comm_size rank (length cs)))"

text \<open>No two circles of the array overlap.\<close>

definition quiet :: "circle_t list \<Rightarrow> bool" where
  "quiet cs \<longleftrightarrow> (\<forall>i<length cs. \<forall>j<length cs. \<not> overlapping cs i j)"

subsection \<open>Quantities the claims speak of\<close>

text \<open>
  The number of unordered pairs of circles that overlap: what the documentation of
  \<^verbatim>\<open>compute_forces\<close> says the count is (each overlapping pair counted only once).
\<close>

definition unordered_overlaps :: "circle_t list \<Rightarrow> nat" where
  "unordered_overlaps cs =
     length (filter (\<lambda>(i, j). i < j \<and> overlapping cs i j)
               (List.product [0..<length cs] [0..<length cs]))"

text \<open>
  The sum, over the ranks, of the displacement that each rank has accumulated for
  circle \<open>c\<close> in its own array.
\<close>

definition summed_dx :: "(nat \<times> circle_t list) list \<Rightarrow> nat \<Rightarrow> real" where
  "summed_dx locals c = sum_list (map (\<lambda>l. dx (snd l ! c)) locals)"

subsection \<open>Arrays used as examples\<close>

text \<open>
  Two circles of radius 10 at \<open>(0, 0)\<close> and \<open>(5, 0)\<close>, and two circles of radius 10
  with the same centre.
\<close>

definition two_circles :: "circle_t list" where
  "two_circles = [\<lparr>x = 0, y = 0, r = 10, dx = 0, dy = 0\<rparr>, \<lparr>x = 5, y = 0, r = 10, dx = 0, dy = 0\<rparr>]"

definition coincident_circles :: "circle_t list" where
  "coincident_circles = [\<lparr>x = 3, y = 4, r = 10, dx = 0, dy = 0\<rparr>, \<lparr>x = 3, y = 4, r = 10, dx = 0, dy = 0\<rparr>]"

text \<open>
  Two circles of radius 10 whose centres are exactly \<open>EPSILON\<close> apart: the test
  \<open>dist < EPSILON\<close> of line 157 fails, and the displacement is along the line of the
  centres, computed with a division by \<open>dist\<close>.
\<close>

definition boundary_circles :: "circle_t list" where
  "boundary_circles =
     [\<lparr>x = 0, y = 0, r = 10, dx = 0, dy = 0\<rparr>, \<lparr>x = EPSILON, y = 0, r = 10, dx = 0, dy = 0\<rparr>]"

text \<open>
  An initial array of 1000 circles inside the square \<open>[0, 1000] \<times> [0, 1000]\<close>, all of
  radius 10: circles 1 to 998 on a grid of pitch 31 in the rows \<open>y = 31\<close> to \<open>y = 992\<close>,
  circles 0 and 999 on the line \<open>y = 0\<close> at \<open>x = xa\<close> and \<open>x = xb\<close>, with displacements
  \<open>da\<close> and \<open>db\<close>.
\<close>

definition grid_circle :: "nat \<Rightarrow> circle_t" where
  "grid_circle c =
     \<lparr>x = 31 * real ((c + 31) mod 32), y = 31 * real ((c + 31) div 32), r = 10, dx = 0, dy = 0\<rparr>"

definition thousand :: "real \<Rightarrow> real \<Rightarrow> real \<Rightarrow> real \<Rightarrow> circle_t list" where
  "thousand xa xb da db =
     map (\<lambda>c. if c = 0 then \<lparr>x = xa, y = 0, r = 10, dx = da, dy = 0\<rparr>
               else if c = 999 then \<lparr>x = xb, y = 0, r = 10, dx = db, dy = 0\<rparr>
               else grid_circle c) [0..<1000]"

definition thousand_circles :: "circle_t list" where
  "thousand_circles = thousand 100 108 0 0"

text \<open>How many of the circles 0 and 999 a scan of the range \<open>[s, e)\<close> has as its \<open>i\<close>.\<close>

definition special_in :: "nat \<Rightarrow> nat \<Rightarrow> nat" where
  "special_in s e = (if s \<le> 0 \<and> 0 < e then 1 else 0) + (if s \<le> 999 \<and> 999 < e then 1 else 0)"

section \<open>The partition: claim C4\<close>

lemma share_end_is_next_start:
  "share_end k n w = share_start (Suc k) n w"
  by (simp add: share_end_def share_start_def)

lemma share_start_mono:
  "a \<le> b \<Longrightarrow> share_start a n w \<le> share_start b n w"
  by (simp add: share_start_def div_le_mono)

lemma share_start_le_end:
  "share_start k n w \<le> share_end k n w"
  by (simp add: share_end_is_next_start share_start_mono)

lemma share_start_0: "share_start 0 n w = 0"
  by (simp add: share_start_def)

lemma share_start_last: "0 < w \<Longrightarrow> share_start w n w = n"
  by (simp add: share_start_def)

lemma share_end_le_ncircles:
  assumes "k < w"
  shows "share_end k n w \<le> n"
proof -
  have "share_start (Suc k) n w \<le> share_start w n w"
    using assms by (intro share_start_mono) simp
  then show ?thesis
    using assms by (simp add: share_end_is_next_start share_start_last)
qed

lemma part_union_upto:
  "k \<le> w \<Longrightarrow> (\<Union>i<k. {share_start i n w ..< share_end i n w}) = {0 ..< share_start k n w}"
proof (induction k)
  case 0
  then show ?case by (simp add: share_start_0)
next
  case (Suc k)
  have le: "share_start k n w \<le> share_start (Suc k) n w"
    by (rule share_start_mono) simp
  have "(\<Union>i<Suc k. {share_start i n w ..< share_end i n w})
        = {0 ..< share_start k n w} \<union> {share_start k n w ..< share_start (Suc k) n w}"
    using Suc by (simp add: lessThan_Suc share_end_is_next_start Un_commute)
  also have "\<dots> = {0 ..< share_start (Suc k) n w}"
    using le by auto
  finally show ?case .
qed

lemma part_disjoint:
  assumes "a < b"
  shows "{share_start a n w ..< share_end a n w} \<inter> {share_start b n w ..< share_end b n w} = {}"
proof -
  have "share_end a n w \<le> share_start b n w"
    unfolding share_end_is_next_start using assms by (intro share_start_mono) simp
  then show ?thesis by auto
qed

lemma div_add_lo: "(a::nat) div w + b div w \<le> (a + b) div w"
proof (cases "w = 0")
  case True
  then show ?thesis by simp
next
  case False
  have "w * (a div w) \<le> a" and "w * (b div w) \<le> b" by simp_all
  then have "(a div w + b div w) * w \<le> a + b"
    by (simp add: algebra_simps add_mono)
  then have "((a div w + b div w) * w) div w \<le> (a + b) div w"
    by (rule div_le_mono)
  then show ?thesis using False by simp
qed

lemma div_add_hi:
  assumes "0 < w"
  shows "((a::nat) + b) div w \<le> a div w + b div w + 1"
proof -
  have "a < w * (a div w) + w" and "b < w * (b div w) + w"
    using dividend_less_times_div [OF assms, of a] dividend_less_times_div [OF assms, of b]
    by (simp_all add: add.commute)
  then have "a + b < (a div w + b div w + 2) * w"
    by (simp add: algebra_simps)
  then have "(a + b) div w < a div w + b div w + 2"
    using assms by (simp add: div_less_iff_less_mult)
  then show ?thesis by simp
qed

lemma part_size_bounds:
  assumes "0 < w"
  shows "n div w \<le> share_end k n w - share_start k n w"
    and "share_end k n w - share_start k n w \<le> n div w + 1"
proof -
  have e: "(k + 1) * n = k * n + n" by (simp add: algebra_simps)
  have lo: "(k * n) div w + n div w \<le> (k * n + n) div w"
    by (rule div_add_lo)
  have hi: "(k * n + n) div w \<le> (k * n) div w + n div w + 1"
    using assms by (rule div_add_hi)
  show "n div w \<le> share_end k n w - share_start k n w"
    using lo unfolding share_end_def share_start_def e by linarith
  show "share_end k n w - share_start k n w \<le> n div w + 1"
    using hi unfolding share_end_def share_start_def e by linarith
qed

lemma share_coverage:
  assumes "1 \<le> w"
  shows "(\<forall>a<w. \<forall>b<w. a \<noteq> b \<longrightarrow>
            {share_start a n w ..< share_end a n w} \<inter> {share_start b n w ..< share_end b n w} = {})
       \<and> (\<Union>k<w. {share_start k n w ..< share_end k n w}) = {0..<n}
       \<and> (\<forall>a<w. \<forall>b<w. share_start a n w \<le> share_end a n w
              \<and> share_end a n w - share_start a n w \<le> (share_end b n w - share_start b n w) + 1)"
proof (intro conjI allI impI)
  fix a b :: nat
  assume "a \<noteq> b"
  then consider "a < b" | "b < a" by linarith
  then show "{share_start a n w ..< share_end a n w} \<inter> {share_start b n w ..< share_end b n w} = {}"
    using part_disjoint [of a b n w] part_disjoint [of b a n w] by (auto simp: Int_commute)
next
  show "(\<Union>k<w. {share_start k n w ..< share_end k n w}) = {0..<n}"
    using assms part_union_upto [of w w n] by (simp add: share_start_last)
next
  fix a b :: nat
  show "share_start a n w \<le> share_end a n w" by (rule share_start_le_end)
next
  fix a b :: nat
  have "share_end a n w - share_start a n w \<le> n div w + 1"
    using assms by (intro part_size_bounds) simp
  moreover have "n div w \<le> share_end b n w - share_start b n w"
    using assms by (intro part_size_bounds) simp
  ultimately show "share_end a n w - share_start a n w \<le> (share_end b n w - share_start b n w) + 1"
    by linarith
qed

subsection \<open>The bounds in 32 bits\<close>

lemma wrap_int_id:
  "- 2147483648 \<le> v \<Longrightarrow> v \<le> 2147483647 \<Longrightarrow> wrap_int v = v"
  by (simp add: wrap_int_def)

lemma div_int_of_nat: "div_int (int a) (int b) = int (a div b)"
  by (cases "a = 0"; cases "b = 0") (simp_all add: div_int_def zdiv_int)

lemma wrap_int_of_nat: "m \<le> 2147483647 \<Longrightarrow> wrap_int (int m) = int m"
  by (rule wrap_int_id) simp_all

lemma part_no_overflow:
  assumes "rank < comm_size" "comm_size * n \<le> 2147483647"
  shows "part_start (int rank) (int n) (int comm_size) = int (share_start rank n comm_size)"
    and "part_end (int rank) (int n) (int comm_size) = int (share_end rank n comm_size)"
proof -
  have "rank \<le> comm_size" "rank + 1 \<le> comm_size"
    using assms(1) by simp_all
  then have "rank * n \<le> comm_size * n" "(rank + 1) * n \<le> comm_size * n"
    by (simp_all only: mult_le_mono1)
  then have le: "rank * n \<le> 2147483647" "(rank + 1) * n \<le> 2147483647"
    using assms(2) by linarith+
  have w0: "wrap_int (int (rank * n)) = int (rank * n)"
    by (rule wrap_int_of_nat [OF le(1)])
  show "part_start (int rank) (int n) (int comm_size) = int (share_start rank n comm_size)"
    by (simp only: part_start_def share_start_def of_nat_mult [symmetric] w0 div_int_of_nat)
  show "part_end (int rank) (int n) (int comm_size) = int (share_end rank n comm_size)"
  proof (cases "n = 0")
    case True
    then show ?thesis
      by (simp add: part_end_def share_end_def wrap_int_def div_int_def)
  next
    case False
    then have "1 \<le> n" by simp
    then have "(rank + 1) * 1 \<le> (rank + 1) * n" by (rule mult_le_mono2)
    then have a: "rank + 1 \<le> (rank + 1) * n" by simp
    have "rank + 1 \<le> 2147483647" by (rule le_trans [OF a le(2)])
    then have w1: "wrap_int (int (rank + 1)) = int (rank + 1)"
      by (rule wrap_int_of_nat)
    have w2: "wrap_int (int ((rank + 1) * n)) = int ((rank + 1) * n)"
      by (rule wrap_int_of_nat [OF le(2)])
    have i: "int rank + 1 = int (rank + 1)" by simp
    show ?thesis
      by (simp only: part_end_def share_end_def i w1 of_nat_mult [symmetric] w2 div_int_of_nat)
  qed
qed

lemma int_range_iff:
  "z \<in> {int s ..< int e} \<longleftrightarrow> 0 \<le> z \<and> nat z \<in> {s ..< e}"
  by auto

text \<open>
  Claim C4, as amended. For every number of circles \<open>n\<close> and every number of ranks
  \<open>w \<ge> 1\<close> with \<open>w * n \<le> 2147483647\<close> (no product of lines 269 and 270 leaves the range
  of \<^verbatim>\<open>int\<close>), the ranges \<open>[part_start rank, part_end rank)\<close> of the ranks \<open>0 .. w - 1\<close> are
  pairwise disjoint, their union is \<open>[0, n)\<close>, and the sizes of any two of them differ by
  at most one.
\<close>

theorem partition_coverage:
  assumes "1 \<le> w" "w * n \<le> 2147483647"
  shows "(\<forall>a<w. \<forall>b<w. a \<noteq> b \<longrightarrow>
            {part_start (int a) (int n) (int w) ..< part_end (int a) (int n) (int w)}
              \<inter> {part_start (int b) (int n) (int w) ..< part_end (int b) (int n) (int w)} = {})
       \<and> (\<Union>k<w. {part_start (int k) (int n) (int w) ..< part_end (int k) (int n) (int w)})
            = {0 ..< int n}
       \<and> (\<forall>a<w. \<forall>b<w.
              part_start (int a) (int n) (int w) \<le> part_end (int a) (int n) (int w)
              \<and> part_end (int a) (int n) (int w) - part_start (int a) (int n) (int w)
                  \<le> (part_end (int b) (int n) (int w) - part_start (int b) (int n) (int w)) + 1)"
proof -
  have w: "1 \<le> w" by (rule assms(1))
  note nat_facts = share_coverage [OF w, of n]
  note conv = part_no_overflow [OF _ assms(2)]
  have disj: "\<And>a b. a < w \<Longrightarrow> b < w \<Longrightarrow> a \<noteq> b \<Longrightarrow>
            {part_start (int a) (int n) (int w) ..< part_end (int a) (int n) (int w)}
              \<inter> {part_start (int b) (int n) (int w) ..< part_end (int b) (int n) (int w)} = {}"
  proof -
    fix a b
    assume ab: "a < w" "b < w" "a \<noteq> b"
    have d: "{share_start a n w ..< share_end a n w} \<inter> {share_start b n w ..< share_end b n w} = {}"
      using nat_facts ab by blast
    show "{part_start (int a) (int n) (int w) ..< part_end (int a) (int n) (int w)}
              \<inter> {part_start (int b) (int n) (int w) ..< part_end (int b) (int n) (int w)} = {}"
    proof (rule ccontr)
      assume "\<not> ?thesis"
      then obtain z where "z \<in> {part_start (int a) (int n) (int w) ..< part_end (int a) (int n) (int w)}"
        "z \<in> {part_start (int b) (int n) (int w) ..< part_end (int b) (int n) (int w)}"
        by blast
      then have "z \<in> {int (share_start a n w) ..< int (share_end a n w)}"
        "z \<in> {int (share_start b n w) ..< int (share_end b n w)}"
        using ab by (simp_all add: conv)
      then have "nat z \<in> {share_start a n w ..< share_end a n w} \<inter> {share_start b n w ..< share_end b n w}"
        unfolding int_range_iff by simp
      with d show False by simp
    qed
  qed
  have un: "(\<Union>k<w. {part_start (int k) (int n) (int w) ..< part_end (int k) (int n) (int w)})
            = {0 ..< int n}"
  proof (rule set_eqI)
    fix z :: int
    have u: "(\<Union>k<w. {share_start k n w ..< share_end k n w}) = {0..<n}"
      using nat_facts by blast
    have "z \<in> (\<Union>k<w. {part_start (int k) (int n) (int w) ..< part_end (int k) (int n) (int w)})
          \<longleftrightarrow> (\<exists>k<w. z \<in> {int (share_start k n w) ..< int (share_end k n w)})"
      by (auto simp: conv)
    also have "\<dots> \<longleftrightarrow> 0 \<le> z \<and> nat z \<in> (\<Union>k<w. {share_start k n w ..< share_end k n w})"
      unfolding int_range_iff by auto
    also have "\<dots> \<longleftrightarrow> z \<in> {0 ..< int n}"
      unfolding u by auto
    finally show "z \<in> (\<Union>k<w. {part_start (int k) (int n) (int w) ..< part_end (int k) (int n) (int w)})
          \<longleftrightarrow> z \<in> {0 ..< int n}" .
  qed
  have sz: "\<And>a b. a < w \<Longrightarrow> b < w \<Longrightarrow>
              part_start (int a) (int n) (int w) \<le> part_end (int a) (int n) (int w)
              \<and> part_end (int a) (int n) (int w) - part_start (int a) (int n) (int w)
                  \<le> (part_end (int b) (int n) (int w) - part_start (int b) (int n) (int w)) + 1"
  proof -
    fix a b
    assume ab: "a < w" "b < w"
    have "share_start a n w \<le> share_end a n w" "share_start b n w \<le> share_end b n w"
      "share_end a n w - share_start a n w \<le> (share_end b n w - share_start b n w) + 1"
      using nat_facts ab by blast+
    then show "part_start (int a) (int n) (int w) \<le> part_end (int a) (int n) (int w)
              \<and> part_end (int a) (int n) (int w) - part_start (int a) (int n) (int w)
                  \<le> (part_end (int b) (int n) (int w) - part_start (int b) (int n) (int w)) + 1"
      using ab by (simp add: conv)
  qed
  from disj un sz show ?thesis by blast
qed

theorem partition_coverage_witness:
  "(1::nat) \<le> 3 \<and> (3::nat) * 10 \<le> 2147483647
   \<and> {part_start (int 0) (int 10) (int 3) ..< part_end (int 0) (int 10) (int 3)}
       \<inter> {part_start (int 2) (int 10) (int 3) ..< part_end (int 2) (int 10) (int 3)} = {}
   \<and> (\<Union>k<3. {part_start (int k) (int 10) (int 3) ..< part_end (int k) (int 10) (int 3)})
       = {0 ..< int 10}
   \<and> part_end (int 1) (int 10) (int 3) - part_start (int 1) (int 10) (int 3)
       \<le> (part_end (int 0) (int 10) (int 3) - part_start (int 0) (int 10) (int 3)) + 1"
proof -
  have h: "(1::nat) \<le> 3" "(3::nat) * 10 \<le> 2147483647" by simp_all
  note t = partition_coverage [OF h]
  have a: "{part_start (int 0) (int 10) (int 3) ..< part_end (int 0) (int 10) (int 3)}
       \<inter> {part_start (int 2) (int 10) (int 3) ..< part_end (int 2) (int 10) (int 3)} = {}"
    using t [THEN conjunct1, rule_format, of 0 2] by simp
  have b: "(\<Union>k<3. {part_start (int k) (int 10) (int 3) ..< part_end (int k) (int 10) (int 3)})
       = {0 ..< int 10}"
    using t [THEN conjunct2, THEN conjunct1] .
  have c: "part_end (int 1) (int 10) (int 3) - part_start (int 1) (int 10) (int 3)
       \<le> (part_end (int 0) (int 10) (int 3) - part_start (int 0) (int 10) (int 3)) + 1"
    using t [THEN conjunct2, THEN conjunct2, rule_format, of 1 0] by simp
  from h a b c show ?thesis by (intro conjI)
qed

text \<open>
  Claim C4 as it is written fails on the code: with 128 ranks and 17000000 circles the
  product \<open>128 * 17000000\<close> of rank 127 wraps around, the range of rank 127 is
  \<open>[- 16687244, - 16554432)\<close>, and the union of the ranges is not \<open>[0, 17000000)\<close>.
\<close>

theorem partition_overflow_counterexample:
  "part_start 127 17000000 128 = - 16687244
   \<and> part_end 127 17000000 128 = - 16554432
   \<and> (\<Union>k<128. {part_start (int k) 17000000 128 ..< part_end (int k) 17000000 128})
        \<noteq> {0 ..< 17000000}"
proof -
  have s: "part_start 127 17000000 128 = - 16687244"
    by (simp add: part_start_def wrap_int_def div_int_def)
  have e: "part_end 127 17000000 128 = - 16554432"
    by (simp add: part_end_def wrap_int_def div_int_def)
  have "- 16687244 \<in> {part_start (int 127) 17000000 128 ..< part_end (int 127) 17000000 128}"
    using s e by simp
  then have "- 16687244 \<in> (\<Union>k<128. {part_start (int k) 17000000 128 ..< part_end (int k) 17000000 128})"
    by (intro UN_I [of 127]) simp_all
  moreover have "(- 16687244 :: int) \<notin> {0 ..< 17000000}"
    by simp
  ultimately have "(\<Union>k<128. {part_start (int k) 17000000 128 ..< part_end (int k) 17000000 128})
        \<noteq> {0 ..< 17000000}"
    by metis
  with s e show ?thesis by simp
qed

section \<open>The kernel\<close>

subsection \<open>The loops over the whole array\<close>

lemma fold_index_update:
  "k \<le> length cs \<Longrightarrow>
     fold (\<lambda>i cs. cs[i := g (cs ! i)]) [0..<k] cs = map g (take k cs) @ drop k cs"
proof (induction k)
  case 0
  then show ?case by simp
next
  case (Suc k)
  then have k: "k < length cs" by simp
  have "fold (\<lambda>i cs. cs[i := g (cs ! i)]) [0..<Suc k] cs
        = (map g (take k cs) @ drop k cs)[k := g ((map g (take k cs) @ drop k cs) ! k)]"
    using Suc by simp
  also have "\<dots> = map g (take k cs) @ (g (cs ! k) # drop (Suc k) cs)"
    using k by (simp add: list_update_append nth_append Cons_nth_drop_Suc [symmetric])
  also have "\<dots> = map g (take (Suc k) cs) @ drop (Suc k) cs"
    using k by (simp add: take_Suc_conv_app_nth)
  finally show ?case .
qed

lemma fold_index_update_all:
  "fold (\<lambda>i cs. cs[i := g (cs ! i)]) [0..<length cs] cs = map g cs"
  using fold_index_update [of "length cs" cs g] by simp

lemma reset_displacements_map:
  "reset_displacements cs = map (\<lambda>c. c\<lparr>dx := 0, dy := 0\<rparr>) cs"
  unfolding reset_displacements_def by (rule fold_index_update_all)

lemma move_body:
  "(let cs1 = cs[i := (cs ! i)\<lparr>x := x (cs ! i) + dx (cs ! i)\<rparr>]
    in cs1[i := (cs1 ! i)\<lparr>y := y (cs1 ! i) + dy (cs1 ! i)\<rparr>])
   = cs[i := (\<lambda>c. c\<lparr>x := x c + dx c, y := y c + dy c\<rparr>) (cs ! i)]"
  by (cases "i < length cs") (simp_all add: Let_def list_update_beyond)

lemma move_circles_map:
  "move_circles cs = map (\<lambda>c. c\<lparr>x := x c + dx c, y := y c + dy c\<rparr>) cs"
  unfolding move_circles_def move_body by (rule fold_index_update_all)

subsection \<open>The body of the inner loop\<close>

lemma EPSILON_pos: "0 < EPSILON"
  by (simp add: EPSILON_def)

lemma K_nonzero: "K \<noteq> 0"
  by (simp add: K_def)

lemma sqrtf_2_nonzero: "sqrtf 2 \<noteq> 0"
  by (simp add: sqrtf_def)

lemma hypotf_nonneg: "0 \<le> hypotf a b"
  by (simp add: hypotf_def)

lemma fdiv_Inr: "b \<noteq> 0 \<Longrightarrow> fdiv a b = Inr (a / b)"
  by (simp add: fdiv_def)

lemma ebind_Inr [simp]: "ebind (Inr v) f = f v"
  by (simp add: ebind_def)

lemma ebind_Inl [simp]: "ebind (Inl e) f = Inl e"
  by (simp add: ebind_def)

lemma overlap_xy_Inr:
  assumes "d < EPSILON \<or> d \<noteq> 0"
  shows "overlap_xy ov d ax ay =
           Inr (if d < EPSILON then (ov / sqrtf 2, ov / sqrtf 2) else (ov / d * ax, ov / d * ay))"
  using assms by (auto simp: overlap_xy_def fdiv_Inr sqrtf_2_nonzero)

lemma apply_overlap_Inr:
  "apply_overlap i j ox oy cs = Inr (shift i j (ox / K) (oy / K) cs)"
  by (simp add: apply_overlap_def shift_def fdiv_Inr K_nonzero)

lemma pair_step_same: "pair_step i i s = Inr s"
  by (simp add: pair_step_def split: prod.split)

lemma pair_step_pure:
  assumes "i \<noteq> j" "i < length cs" "j < length cs"
  shows "pair_step i j (n, cs) =
           Inr (if overlapping cs i j
                then (n + 1, shift i j (push_x cs i j) (push_y cs i j) cs)
                else (n, cs))"
proof (cases "overlapping cs i j")
  case False
  then show ?thesis
    using assms by (simp add: pair_step_def overlapping_def dist_ij_def Let_def)
next
  case True
  define d where "d = dist_ij cs i j"
  define ov where "ov = r (cs ! i) + r (cs ! j) - d"
  have lt: "d < r (cs ! i) + r (cs ! j) - EPSILON"
    using True by (simp add: overlapping_def d_def)
  then have pos: "0 < ov"
    using EPSILON_pos by (simp add: ov_def)
  have d0: "d < EPSILON \<or> d \<noteq> 0"
    using EPSILON_pos by linarith
  have "pair_step i j (n, cs) =
          ebind (overlap_xy ov d (x (cs ! j) - x (cs ! i)) (y (cs ! j) - y (cs ! i)))
            (\<lambda>(overlap_x, overlap_y).
               ebind (apply_overlap i j overlap_x overlap_y cs) (\<lambda>circles'. Inr (n + 1, circles')))"
    using assms lt pos
    by (simp add: pair_step_def Let_def d_def [symmetric, unfolded dist_ij_def] ov_def [symmetric])
  also have "\<dots> = Inr (n + 1, shift i j (push_x cs i j) (push_y cs i j) cs)"
    by (simp add: overlap_xy_Inr [OF d0] apply_overlap_Inr push_x_def push_y_def overlap_x_def overlap_y_def Let_def
        d_def [symmetric] ov_def [symmetric])
  finally show ?thesis using True by simp
qed

subsection \<open>Displacements accumulated over a list of pairs\<close>

lemma length_shift [simp]: "length (shift i j vx vy cs) = length cs"
  by (simp add: shift_def add_dy_def add_dx_def sub_dy_def sub_dx_def)

lemma nth_shift:
  assumes "i \<noteq> j" "c < length cs"
  shows "shift i j vx vy cs ! c =
           (cs ! c)\<lparr>dx := dx (cs ! c) + ((if c = j then vx else 0) - (if c = i then vx else 0)),
                     dy := dy (cs ! c) + ((if c = j then vy else 0) - (if c = i then vy else 0))\<rparr>"
  using assms
  by (simp add: shift_def add_dy_def add_dx_def sub_dy_def sub_dx_def nth_list_update)

lemma length_accum [simp]: "length (accum cs ps) = length cs"
  by (simp add: accum_def)

lemma nth_accum:
  "c < length cs \<Longrightarrow>
     accum cs ps ! c =
       (cs ! c)\<lparr>dx := dx (cs ! c) + sum_list (map (\<lambda>(i, j). disp_x cs i j c) ps),
                 dy := dy (cs ! c) + sum_list (map (\<lambda>(i, j). disp_y cs i j c) ps)\<rparr>"
  by (simp add: accum_def)

lemma accum_Nil: "accum cs [] = cs"
  by (rule nth_equalityI) (simp_all add: nth_accum)

lemma geometry_accum:
  assumes "i < length cs" "j < length cs"
  shows "dist_ij (accum cs ps) i j = dist_ij cs i j"
    and "overlapping (accum cs ps) i j = overlapping cs i j"
    and "push_x (accum cs ps) i j = push_x cs i j"
    and "push_y (accum cs ps) i j = push_y cs i j"
  using assms
  by (simp_all add: dist_ij_def overlapping_def push_x_def push_y_def overlap_x_def overlap_y_def nth_accum Let_def)

lemma efold_append:
  "efold f (as @ bs) s = ebind (efold f as s) (efold f bs)"
  by (induction as arbitrary: s) (simp_all add: ebind_def split: sum.split)

lemma accum_snoc:
  assumes "i \<noteq> j" "i < length cs" "j < length cs"
  shows "(if overlapping cs i j
          then shift i j (push_x cs i j) (push_y cs i j) (accum cs ps)
          else accum cs ps) = accum cs (ps @ [(i, j)])"
proof (rule nth_equalityI)
  show "length (if overlapping cs i j
          then shift i j (push_x cs i j) (push_y cs i j) (accum cs ps)
          else accum cs ps) = length (accum cs (ps @ [(i, j)]))"
    by simp
next
  fix c
  assume "c < length (if overlapping cs i j
          then shift i j (push_x cs i j) (push_y cs i j) (accum cs ps)
          else accum cs ps)"
  then have c: "c < length cs" by (simp split: if_splits)
  show "(if overlapping cs i j
          then shift i j (push_x cs i j) (push_y cs i j) (accum cs ps)
          else accum cs ps) ! c = accum cs (ps @ [(i, j)]) ! c"
    using c assms by (simp add: nth_shift nth_accum disp_x_def disp_y_def)
qed

lemma accum_snoc_same: "accum cs (ps @ [(i, i)]) = accum cs ps"
  by (rule nth_equalityI) (simp_all add: nth_accum disp_x_def disp_y_def overlapping_def)

lemma efold_pairs:
  assumes "\<And>i j. (i, j) \<in> set ps \<Longrightarrow> i = j \<or> (i < length cs \<and> j < length cs)"
  shows "efold (\<lambda>(i, j). pair_step i j) ps (n, cs) =
           Inr (n + length (filter (\<lambda>(i, j). overlapping cs i j) ps), accum cs ps)"
  using assms
proof (induction ps rule: rev_induct)
  case Nil
  then show ?case by (simp add: accum_Nil)
next
  case (snoc p ps)
  obtain i j where p: "p = (i, j)" by (cases p)
  have ih: "efold (\<lambda>(i, j). pair_step i j) ps (n, cs) =
              Inr (n + length (filter (\<lambda>(i, j). overlapping cs i j) ps), accum cs ps)"
    using snoc by simp
  show ?case
  proof (cases "i = j")
    case True
    then show ?thesis
      by (simp add: efold_append ih p pair_step_same accum_snoc_same overlapping_def)
  next
    case False
    then have b: "i < length cs" "j < length cs"
      using snoc.prems [of i j] by (simp_all add: p)
    have "pair_step i j (n + length (filter (\<lambda>(i, j). overlapping cs i j) ps), accum cs ps)
          = Inr (if overlapping cs i j
                 then (n + length (filter (\<lambda>(i, j). overlapping cs i j) ps) + 1,
                       shift i j (push_x cs i j) (push_y cs i j) (accum cs ps))
                 else (n + length (filter (\<lambda>(i, j). overlapping cs i j) ps), accum cs ps))"
      using False b by (simp add: pair_step_pure geometry_accum)
    then show ?thesis
      using accum_snoc [OF False b, of ps]
      by (simp add: efold_append ih p split: if_splits)
  qed
qed

subsection \<open>compute_forces in closed form\<close>

lemma efold_map: "efold f (map g as) s = efold (\<lambda>a. f (g a)) as s"
  by (induction as arbitrary: s) (simp_all add: ebind_def split: sum.split)

lemma efold_product:
  "efold (\<lambda>i. efold (\<lambda>j. f i j) js) is s = efold (\<lambda>(i, j). f i j) (List.product is js) s"
  by (induction "is" arbitrary: s)
     (simp_all add: efold_append efold_map ebind_def split: sum.split)

lemma compute_forces_scanned:
  "compute_forces start end_idx cs =
     efold (\<lambda>(i, j). pair_step i j) (scanned start end_idx (length cs)) (0, cs)"
  by (simp add: compute_forces_def scanned_def efold_product)

lemma compute_forces_pure:
  assumes "end_idx \<le> length cs"
  shows "compute_forces start end_idx cs =
           Inr (length (filter (\<lambda>(i, j). overlapping cs i j) (scanned start end_idx (length cs))),
                accum cs (scanned start end_idx (length cs)))"
proof -
  have "\<And>i j. (i, j) \<in> set (scanned start end_idx (length cs)) \<Longrightarrow>
          i = j \<or> (i < length cs \<and> j < length cs)"
    using assms by (auto simp: scanned_def)
  from efold_pairs [OF this, of _ 0] show ?thesis
    by (simp add: compute_forces_scanned)
qed

subsection \<open>The only error is an access outside the array\<close>

lemma pair_step_errors:
  "pair_step i j s = Inl e \<Longrightarrow> e = OutOfBounds"
proof (cases s)
  case (Pair n cs)
  assume e: "pair_step i j s = Inl e"
  show ?thesis
  proof (cases "i \<noteq> j \<and> i < length cs \<and> j < length cs")
    case True
    then show ?thesis using e Pair by (simp add: pair_step_pure)
  next
    case False
    then show ?thesis using e Pair by (auto simp: pair_step_def split: if_splits)
  qed
qed

lemma efold_errors:
  assumes "\<And>a s e. f a s = Inl e \<Longrightarrow> P e"
  shows "efold f as s = Inl e \<Longrightarrow> P e"
proof (induction as arbitrary: s)
  case Nil
  then show ?case by simp
next
  case (Cons a as)
  then show ?case
    using assms by (cases "f a s") (auto simp: ebind_def)
qed

lemma compute_forces_errors:
  "compute_forces start end_idx cs = Inl e \<Longrightarrow> e = OutOfBounds"
  unfolding compute_forces_scanned
  by (erule efold_errors [rotated]) (auto dest: pair_step_errors)

subsection \<open>What compute_forces leaves unchanged\<close>

lemma efold_invariant:
  assumes "\<And>a s s'. P s \<Longrightarrow> f a s = Inr s' \<Longrightarrow> P s'"
  shows "P s \<Longrightarrow> efold f as s = Inr s' \<Longrightarrow> P s'"
proof (induction as arbitrary: s)
  case Nil
  then show ?case by simp
next
  case (Cons a as)
  then show ?case
    using assms by (cases "f a s") (auto simp: ebind_def)
qed

lemma map_field_update:
  assumes "f (g (cs ! i)) = f (cs ! i)"
  shows "map f (cs[i := g (cs ! i)]) = map f cs"
proof (cases "i < length cs")
  case True
  then have "(map f cs)[i := f (cs ! i)] = map f cs"
    by (metis list_update_id nth_map)
  then show ?thesis using assms by (simp add: map_update)
next
  case False
  then show ?thesis by (simp add: list_update_beyond)
qed

lemma displacement_update_frame:
  "map x (sub_dx i v cs) = map x cs" "map y (sub_dx i v cs) = map y cs" "map r (sub_dx i v cs) = map r cs"
  "map x (sub_dy i v cs) = map x cs" "map y (sub_dy i v cs) = map y cs" "map r (sub_dy i v cs) = map r cs"
  "map x (add_dx i v cs) = map x cs" "map y (add_dx i v cs) = map y cs" "map r (add_dx i v cs) = map r cs"
  "map x (add_dy i v cs) = map x cs" "map y (add_dy i v cs) = map y cs" "map r (add_dy i v cs) = map r cs"
  unfolding sub_dx_def sub_dy_def add_dx_def add_dy_def
  by (rule map_field_update, simp)+

lemma shift_frame:
  "map x (shift i j vx vy cs) = map x cs"
  "map y (shift i j vx vy cs) = map y cs"
  "map r (shift i j vx vy cs) = map r cs"
  by (simp_all add: shift_def displacement_update_frame)

lemma pair_step_frame:
  assumes "pair_step i j (n, cs) = Inr (n', cs')"
  shows "map x cs' = map x cs \<and> map y cs' = map y cs \<and> map r cs' = map r cs"
proof (cases "i \<noteq> j \<and> i < length cs \<and> j < length cs")
  case True
  then show ?thesis
    using assms by (auto simp: pair_step_pure shift_frame split: if_splits)
next
  case False
  then show ?thesis
    using assms by (auto simp: pair_step_def split: if_splits)
qed

lemma compute_forces_frame:
  assumes "compute_forces start end_idx cs = Inr (n, cs')"
  shows "map x cs' = map x cs \<and> map y cs' = map y cs \<and> map r cs' = map r cs"
proof -
  let ?P = "\<lambda>s. map x (snd s) = map x cs \<and> map y (snd s) = map y cs \<and> map r (snd s) = map r cs"
  have step: "\<And>a s s'. ?P s \<Longrightarrow> (case a of (i, j) \<Rightarrow> pair_step i j) s = Inr s' \<Longrightarrow> ?P s'"
  proof -
    fix a :: "nat \<times> nat" and s s' :: "nat \<times> circle_t list"
    assume p: "?P s" and e: "(case a of (i, j) \<Rightarrow> pair_step i j) s = Inr s'"
    obtain i j where a: "a = (i, j)" by (cases a)
    obtain m ds where s: "s = (m, ds)" by (cases s)
    obtain m' ds' where s': "s' = (m', ds')" by (cases s')
    from e have "pair_step i j (m, ds) = Inr (m', ds')" by (simp add: a s s')
    from pair_step_frame [OF this] p show "?P s'" by (simp add: s s')
  qed
  have "?P (n, cs')"
    by (rule efold_invariant [where P = ?P, OF step _ assms [unfolded compute_forces_scanned]])
       simp_all
  then show ?thesis by simp
qed

subsection \<open>One pair: claims C5, C6 and C7\<close>

lemma hypotf_axis [simp]: "hypotf a 0 = \<bar>a\<bar>"
  by (simp add: hypotf_def)

lemma upt_0_2: "[0..<2] = [0, Suc 0]"
  by (simp add: numeral_2_eq_2)

lemma compute_forces_two_circles:
  "compute_forces 0 2 two_circles =
     Inr (2, [\<lparr>x = 0, y = 0, r = 10, dx = -20, dy = 0\<rparr>, \<lparr>x = 5, y = 0, r = 10, dx = 20, dy = 0\<rparr>])"
  by (simp add: compute_forces_def two_circles_def upt_0_2 pair_step_def
      EPSILON_def K_def overlap_xy_def fdiv_def apply_overlap_def sub_dx_def sub_dy_def add_dx_def add_dy_def Let_def)

lemma overlapping_two_circles: "overlapping two_circles 0 1"
  by (simp add: overlapping_def dist_ij_def two_circles_def EPSILON_def)

lemma dist_coincident_circles: "dist_ij coincident_circles 0 1 = 0"
  by (simp add: dist_ij_def coincident_circles_def)

lemma overlapping_coincident_circles: "overlapping coincident_circles 0 1"
  unfolding overlapping_def dist_coincident_circles
  by (simp add: coincident_circles_def EPSILON_def)

lemma pair_step_overlapping:
  assumes "i \<noteq> j" "i < length cs" "j < length cs" "overlapping cs i j"
  shows "pair_step i j (n, cs) = Inr (n + 1, shift i j (push_x cs i j) (push_y cs i j) cs)"
  using assms by (simp add: pair_step_pure)

lemma shift_at_i:
  assumes "i \<noteq> j" "i < length cs"
  shows "dx (shift i j vx vy cs ! i) = dx (cs ! i) - vx" "dy (shift i j vx vy cs ! i) = dy (cs ! i) - vy"
  using assms by (simp_all add: nth_shift)

lemma shift_at_j:
  assumes "i \<noteq> j" "j < length cs"
  shows "dx (shift i j vx vy cs ! j) = dx (cs ! j) + vx" "dy (shift i j vx vy cs ! j) = dy (cs ! j) + vy"
  using assms by (simp_all add: nth_shift)

text \<open>
  Claim C5. When the body of the inner loop detects that the pair \<open>(i, j)\<close> overlaps, it
  subtracts \<open>overlap_x / K\<close> and \<open>overlap_y / K\<close> from the displacement of circle \<open>i\<close> and
  adds the same two values to the displacement of circle \<open>j\<close>, with \<open>K = 1.5\<close>: what is
  added to \<open>j\<close> is the negation of what is added to \<open>i\<close>.
\<close>

theorem displacement_antisymmetric:
  assumes "i \<noteq> j" "i < length cs" "j < length cs" "overlapping cs i j"
  shows "\<exists>cs'. pair_step i j (n, cs) = Inr (n + 1, cs')
           \<and> dx (cs' ! i) = dx (cs ! i) - overlap_x cs i j / (3 / 2)
           \<and> dy (cs' ! i) = dy (cs ! i) - overlap_y cs i j / (3 / 2)
           \<and> dx (cs' ! j) = dx (cs ! j) + overlap_x cs i j / (3 / 2)
           \<and> dy (cs' ! j) = dy (cs ! j) + overlap_y cs i j / (3 / 2)
           \<and> dx (cs' ! j) - dx (cs ! j) = - (dx (cs' ! i) - dx (cs ! i))
           \<and> dy (cs' ! j) - dy (cs ! j) = - (dy (cs' ! i) - dy (cs ! i))"
proof -
  let ?cs' = "shift i j (push_x cs i j) (push_y cs i j) cs"
  have "pair_step i j (n, cs) = Inr (n + 1, ?cs')"
    using assms by (rule pair_step_overlapping)
  moreover have "dx (?cs' ! i) = dx (cs ! i) - overlap_x cs i j / (3 / 2)"
    "dy (?cs' ! i) = dy (cs ! i) - overlap_y cs i j / (3 / 2)"
    using assms by (simp_all add: shift_at_i push_x_def push_y_def K_def)
  moreover have "dx (?cs' ! j) = dx (cs ! j) + overlap_x cs i j / (3 / 2)"
    "dy (?cs' ! j) = dy (cs ! j) + overlap_y cs i j / (3 / 2)"
    using assms by (simp_all add: shift_at_j push_x_def push_y_def K_def)
  ultimately show ?thesis
    by (intro exI [of _ ?cs']) simp
qed

theorem displacement_antisymmetric_witness:
  "overlapping two_circles 0 1
   \<and> (\<exists>cs'. pair_step 0 1 (0, two_circles) = Inr (1, cs')
           \<and> dx (cs' ! 0) = - 10 \<and> dy (cs' ! 0) = 0 \<and> dx (cs' ! 1) = 10 \<and> dy (cs' ! 1) = 0)"
proof -
  have h: "(0::nat) \<noteq> 1" "0 < length two_circles" "1 < length two_circles"
    by (simp_all add: two_circles_def)
  have ox: "overlap_x two_circles 0 1 = 15" and oy: "overlap_y two_circles 0 1 = 0"
    by (simp_all add: overlap_x_def overlap_y_def dist_ij_def two_circles_def EPSILON_def Let_def)
  from displacement_antisymmetric [OF h overlapping_two_circles, of 0]
  obtain cs' where "pair_step 0 1 (0, two_circles) = Inr (0 + 1, cs')"
    and "dx (cs' ! 0) = dx (two_circles ! 0) - overlap_x two_circles 0 1 / (3 / 2)"
    and "dy (cs' ! 0) = dy (two_circles ! 0) - overlap_y two_circles 0 1 / (3 / 2)"
    and "dx (cs' ! 1) = dx (two_circles ! 1) + overlap_x two_circles 0 1 / (3 / 2)"
    and "dy (cs' ! 1) = dy (two_circles ! 1) + overlap_y two_circles 0 1 / (3 / 2)"
    by blast
  then have "pair_step 0 1 (0, two_circles) = Inr (1, cs')
           \<and> dx (cs' ! 0) = - 10 \<and> dy (cs' ! 0) = 0 \<and> dx (cs' ! 1) = 10 \<and> dy (cs' ! 1) = 0"
    unfolding ox oy by (simp add: two_circles_def)
  then show ?thesis using overlapping_two_circles by blast
qed

lemma overlap_coincident:
  assumes "dist_ij cs i j < EPSILON"
  shows "overlap_x cs i j = (r (cs ! i) + r (cs ! j) - dist_ij cs i j) / sqrt 2"
    and "overlap_y cs i j = (r (cs ! i) + r (cs ! j) - dist_ij cs i j) / sqrt 2"
  using assms by (simp_all add: overlap_x_def overlap_y_def Let_def sqrtf_def)

lemma pair_step_no_error:
  "e \<noteq> OutOfBounds \<Longrightarrow> pair_step i j s \<noteq> Inl e"
  using pair_step_errors by blast

lemma compute_forces_no_error:
  "e \<noteq> OutOfBounds \<Longrightarrow> compute_forces start end_idx cs \<noteq> Inl e"
  using compute_forces_errors by blast

lemma disp_coincident:
  assumes "overlapping cs i j" "dist_ij cs i j < EPSILON"
  shows "disp_x cs i j c =
           (if c = j then (r (cs ! i) + r (cs ! j) - dist_ij cs i j) / sqrt 2 / K else 0)
           - (if c = i then (r (cs ! i) + r (cs ! j) - dist_ij cs i j) / sqrt 2 / K else 0)"
    and "disp_y cs i j c =
           (if c = j then (r (cs ! i) + r (cs ! j) - dist_ij cs i j) / sqrt 2 / K else 0)
           - (if c = i then (r (cs ! i) + r (cs ! j) - dist_ij cs i j) / sqrt 2 / K else 0)"
proof -
  have ne: "i \<noteq> j" using assms(1) by (simp add: overlapping_def)
  show "disp_x cs i j c =
           (if c = j then (r (cs ! i) + r (cs ! j) - dist_ij cs i j) / sqrt 2 / K else 0)
           - (if c = i then (r (cs ! i) + r (cs ! j) - dist_ij cs i j) / sqrt 2 / K else 0)"
    using assms ne by (simp add: disp_x_def push_x_def overlap_coincident)
  show "disp_y cs i j c =
           (if c = j then (r (cs ! i) + r (cs ! j) - dist_ij cs i j) / sqrt 2 / K else 0)
           - (if c = i then (r (cs ! i) + r (cs ! j) - dist_ij cs i j) / sqrt 2 / K else 0)"
    using assms ne by (simp add: disp_y_def push_y_def overlap_coincident)
qed

lemma compute_forces_coincident_row:
  "compute_forces 0 (Suc 0) coincident_circles =
     Inr (1, [\<lparr>x = 3, y = 4, r = 10, dx = - (20 / sqrt 2 / K), dy = - (20 / sqrt 2 / K)\<rparr>,
              \<lparr>x = 3, y = 4, r = 10, dx = 20 / sqrt 2 / K, dy = 20 / sqrt 2 / K\<rparr>])"
  by (simp add: compute_forces_def coincident_circles_def upt_0_2 pair_step_def
      EPSILON_def K_def overlap_xy_def fdiv_def sqrtf_def apply_overlap_def
      sub_dx_def sub_dy_def add_dx_def add_dy_def Let_def)

lemma pair_step_boundary_circles:
  "pair_step 0 1 (0, boundary_circles) =
     Inr (1, [\<lparr>x = 0, y = 0, r = 10, dx = - ((20 - EPSILON) / K), dy = 0\<rparr>,
              \<lparr>x = EPSILON, y = 0, r = 10, dx = (20 - EPSILON) / K, dy = 0\<rparr>])"
  by (simp add: boundary_circles_def pair_step_def
      EPSILON_def K_def overlap_xy_def fdiv_def sqrtf_def apply_overlap_def
      sub_dx_def sub_dy_def add_dx_def add_dy_def Let_def)

text \<open>
  Claim C6. For an overlapping pair whose centres coincide (\<open>dist < EPSILON\<close>), the body
  of the inner loop returns a result, and the displacement it applies is the overlap
  divided by \<open>sqrt 2\<close> on each axis (then by \<open>K\<close>), subtracted from circle \<open>i\<close> and added
  to circle \<open>j\<close>: \<open>dist\<close> is not a divisor. A scan of \<^verbatim>\<open>compute_forces\<close> whose range ends
  inside the array returns the array in which every circle has received, from every
  pair scanned, the displacement \<open>disp_x\<close>, \<open>disp_y\<close> of that pair, which for such a pair is
  this fallback. No input makes the body of the loop, or \<^verbatim>\<open>compute_forces\<close>, divide by
  zero.
\<close>

theorem coincident_centres_fallback:
  "(i \<noteq> j \<and> i < length cs \<and> j < length cs \<and> overlapping cs i j \<and> dist_ij cs i j < EPSILON \<longrightarrow>
      (\<exists>cs'. pair_step i j (n, cs) = Inr (n + 1, cs')
         \<and> dx (cs' ! i) = dx (cs ! i) - (r (cs ! i) + r (cs ! j) - dist_ij cs i j) / sqrt 2 / K
         \<and> dy (cs' ! i) = dy (cs ! i) - (r (cs ! i) + r (cs ! j) - dist_ij cs i j) / sqrt 2 / K
         \<and> dx (cs' ! j) = dx (cs ! j) + (r (cs ! i) + r (cs ! j) - dist_ij cs i j) / sqrt 2 / K
         \<and> dy (cs' ! j) = dy (cs ! j) + (r (cs ! i) + r (cs ! j) - dist_ij cs i j) / sqrt 2 / K))
   \<and> (overlapping cs i j \<and> dist_ij cs i j < EPSILON \<longrightarrow>
        disp_x cs i j c = (if c = j then (r (cs ! i) + r (cs ! j) - dist_ij cs i j) / sqrt 2 / K else 0) - (if c = i then (r (cs ! i) + r (cs ! j) - dist_ij cs i j) / sqrt 2 / K else 0)
      \<and> disp_y cs i j c = (if c = j then (r (cs ! i) + r (cs ! j) - dist_ij cs i j) / sqrt 2 / K else 0) - (if c = i then (r (cs ! i) + r (cs ! j) - dist_ij cs i j) / sqrt 2 / K else 0))
   \<and> (end_idx \<le> length cs0 \<longrightarrow>
        compute_forces start end_idx cs0 =
          Inr (length (filter (\<lambda>(i, j). overlapping cs0 i j) (scanned start end_idx (length cs0))),
               accum cs0 (scanned start end_idx (length cs0))))
   \<and> pair_step i' j' s \<noteq> Inl DivisionByZero
   \<and> compute_forces start end_idx cs0 \<noteq> Inl DivisionByZero"
proof (intro conjI impI)
  assume a: "i \<noteq> j \<and> i < length cs \<and> j < length cs \<and> overlapping cs i j \<and> dist_ij cs i j < EPSILON"
  let ?cs' = "shift i j (push_x cs i j) (push_y cs i j) cs"
  have "pair_step i j (n, cs) = Inr (n + 1, ?cs')"
    using a by (simp add: pair_step_overlapping)
  moreover have "dx (?cs' ! i) = dx (cs ! i) - (r (cs ! i) + r (cs ! j) - dist_ij cs i j) / sqrt 2 / K"
    "dy (?cs' ! i) = dy (cs ! i) - (r (cs ! i) + r (cs ! j) - dist_ij cs i j) / sqrt 2 / K"
    using a by (simp_all add: shift_at_i push_x_def push_y_def overlap_coincident)
  moreover have "dx (?cs' ! j) = dx (cs ! j) + (r (cs ! i) + r (cs ! j) - dist_ij cs i j) / sqrt 2 / K"
    "dy (?cs' ! j) = dy (cs ! j) + (r (cs ! i) + r (cs ! j) - dist_ij cs i j) / sqrt 2 / K"
    using a by (simp_all add: shift_at_j push_x_def push_y_def overlap_coincident)
  ultimately show "\<exists>cs'. pair_step i j (n, cs) = Inr (n + 1, cs')
         \<and> dx (cs' ! i) = dx (cs ! i) - (r (cs ! i) + r (cs ! j) - dist_ij cs i j) / sqrt 2 / K
         \<and> dy (cs' ! i) = dy (cs ! i) - (r (cs ! i) + r (cs ! j) - dist_ij cs i j) / sqrt 2 / K
         \<and> dx (cs' ! j) = dx (cs ! j) + (r (cs ! i) + r (cs ! j) - dist_ij cs i j) / sqrt 2 / K
         \<and> dy (cs' ! j) = dy (cs ! j) + (r (cs ! i) + r (cs ! j) - dist_ij cs i j) / sqrt 2 / K"
    by (intro exI [of _ ?cs']) simp
next
  assume "overlapping cs i j \<and> dist_ij cs i j < EPSILON"
  then have o: "overlapping cs i j" and d: "dist_ij cs i j < EPSILON" by simp_all
  show "disp_x cs i j c = (if c = j then (r (cs ! i) + r (cs ! j) - dist_ij cs i j) / sqrt 2 / K else 0) - (if c = i then (r (cs ! i) + r (cs ! j) - dist_ij cs i j) / sqrt 2 / K else 0)"
    by (rule disp_coincident(1) [OF o d])
  show "disp_y cs i j c = (if c = j then (r (cs ! i) + r (cs ! j) - dist_ij cs i j) / sqrt 2 / K else 0) - (if c = i then (r (cs ! i) + r (cs ! j) - dist_ij cs i j) / sqrt 2 / K else 0)"
    by (rule disp_coincident(2) [OF o d])
next
  assume "end_idx \<le> length cs0"
  then show "compute_forces start end_idx cs0 =
          Inr (length (filter (\<lambda>(i, j). overlapping cs0 i j) (scanned start end_idx (length cs0))),
               accum cs0 (scanned start end_idx (length cs0)))"
    by (rule compute_forces_pure)
next
  show "pair_step i' j' s \<noteq> Inl DivisionByZero"
    by (rule pair_step_no_error) simp
next
  show "compute_forces start end_idx cs0 \<noteq> Inl DivisionByZero"
    by (rule compute_forces_no_error) simp
qed

theorem coincident_centres_fallback_witness:
  "overlapping coincident_circles 0 1 \<and> dist_ij coincident_circles 0 1 < EPSILON
   \<and> (\<exists>cs'. pair_step 0 1 (0, coincident_circles) = Inr (1, cs')
         \<and> dx (cs' ! 0) = - (20 / sqrt 2 / K) \<and> dy (cs' ! 0) = - (20 / sqrt 2 / K)
         \<and> dx (cs' ! 1) = 20 / sqrt 2 / K \<and> dy (cs' ! 1) = 20 / sqrt 2 / K)
   \<and> disp_x coincident_circles 0 1 1 = 20 / sqrt 2 / K
   \<and> disp_y coincident_circles 0 1 0 = - (20 / sqrt 2 / K)
   \<and> compute_forces 0 1 coincident_circles =
       Inr (1, [\<lparr>x = 3, y = 4, r = 10, dx = - (20 / sqrt 2 / K), dy = - (20 / sqrt 2 / K)\<rparr>,
                \<lparr>x = 3, y = 4, r = 10, dx = 20 / sqrt 2 / K, dy = 20 / sqrt 2 / K\<rparr>])
   \<and> compute_forces 0 1 coincident_circles =
       Inr (length (filter (\<lambda>(i, j). overlapping coincident_circles i j)
                      (scanned 0 1 (length coincident_circles))),
            accum coincident_circles (scanned 0 1 (length coincident_circles)))
   \<and> compute_forces 0 2 coincident_circles \<noteq> Inl DivisionByZero"
proof -
  have d: "dist_ij coincident_circles 0 1 < EPSILON"
    unfolding dist_coincident_circles by (rule EPSILON_pos)
  have o: "overlapping coincident_circles 0 1"
    by (rule overlapping_coincident_circles)
  have h: "(0::nat) \<noteq> 1 \<and> 0 < length coincident_circles \<and> 1 < length coincident_circles
           \<and> overlapping coincident_circles 0 1 \<and> dist_ij coincident_circles 0 1 < EPSILON"
    using d o by (simp add: coincident_circles_def)
  have l: "(1::nat) \<le> length coincident_circles"
    by (simp add: coincident_circles_def)
  note t = coincident_centres_fallback [where i = 0 and j = 1 and cs = coincident_circles
      and n = 0 and i' = 0 and j' = 1 and s = "(0, coincident_circles)"
      and cs0 = coincident_circles]
  from t [where c = 0 and start = 0 and end_idx = 2, THEN conjunct1, rule_format, OF h]
  have p: "\<exists>cs'. pair_step 0 1 (0, coincident_circles) = Inr (1, cs')
         \<and> dx (cs' ! 0) = - (20 / sqrt 2 / K) \<and> dy (cs' ! 0) = - (20 / sqrt 2 / K)
         \<and> dx (cs' ! 1) = 20 / sqrt 2 / K \<and> dy (cs' ! 1) = 20 / sqrt 2 / K"
    unfolding dist_coincident_circles by (simp add: coincident_circles_def)
  from t [where c = 1 and start = 0 and end_idx = 1] o d
  have "disp_x coincident_circles 0 1 1 =
          (r (coincident_circles ! 0) + r (coincident_circles ! 1) - dist_ij coincident_circles 0 1)
            / sqrt 2 / K"
    by simp
  then have x1: "disp_x coincident_circles 0 1 1 = 20 / sqrt 2 / K"
    unfolding dist_coincident_circles by (simp add: coincident_circles_def)
  from t [where c = 0 and start = 0 and end_idx = 1] o d
  have "disp_y coincident_circles 0 1 0 =
          - ((r (coincident_circles ! 0) + r (coincident_circles ! 1) - dist_ij coincident_circles 0 1)
            / sqrt 2 / K)"
    by simp
  then have y0: "disp_y coincident_circles 0 1 0 = - (20 / sqrt 2 / K)"
    unfolding dist_coincident_circles by (simp add: coincident_circles_def)
  from t [where c = 0 and start = 0 and end_idx = 1] l
  have sc: "compute_forces 0 1 coincident_circles =
       Inr (length (filter (\<lambda>(i, j). overlapping coincident_circles i j)
                      (scanned 0 1 (length coincident_circles))),
            accum coincident_circles (scanned 0 1 (length coincident_circles)))"
    by blast
  have ev: "compute_forces 0 1 coincident_circles =
       Inr (1, [\<lparr>x = 3, y = 4, r = 10, dx = - (20 / sqrt 2 / K), dy = - (20 / sqrt 2 / K)\<rparr>,
                \<lparr>x = 3, y = 4, r = 10, dx = 20 / sqrt 2 / K, dy = 20 / sqrt 2 / K\<rparr>])"
    using compute_forces_coincident_row by simp
  have nz: "compute_forces 0 2 coincident_circles \<noteq> Inl DivisionByZero"
    using t [where c = 0 and start = 0 and end_idx = 2] by blast
  from o d p x1 y0 ev sc nz show ?thesis
    by (intro conjI)
qed

text \<open>
  Claim C7. When the overlap test \<open>dist < Rsum - EPSILON\<close> of line 151 succeeds, the
  overlap \<open>Rsum - dist\<close> is strictly positive: no input makes the body of the inner loop,
  or \<^verbatim>\<open>compute_forces\<close>, fail the assertion of line 155.
\<close>

theorem overlap_assertion_holds:
  "(overlapping cs i j \<longrightarrow> 0 < r (cs ! i) + r (cs ! j) - dist_ij cs i j)
   \<and> pair_step i' j' s \<noteq> Inl AssertionFailed
   \<and> compute_forces start end_idx cs0 \<noteq> Inl AssertionFailed"
proof (intro conjI impI)
  assume "overlapping cs i j"
  then have "dist_ij cs i j < r (cs ! i) + r (cs ! j) - EPSILON"
    by (simp add: overlapping_def)
  then show "0 < r (cs ! i) + r (cs ! j) - dist_ij cs i j"
    using EPSILON_pos by linarith
next
  show "pair_step i' j' s \<noteq> Inl AssertionFailed"
    by (rule pair_step_no_error) simp
next
  show "compute_forces start end_idx cs0 \<noteq> Inl AssertionFailed"
    by (rule compute_forces_no_error) simp
qed

theorem overlap_assertion_holds_witness:
  "overlapping two_circles 0 1
   \<and> 0 < r (two_circles ! 0) + r (two_circles ! 1) - dist_ij two_circles 0 1
   \<and> pair_step 0 1 (0, two_circles) \<noteq> Inl AssertionFailed
   \<and> compute_forces 0 2 two_circles \<noteq> Inl AssertionFailed"
  using overlap_assertion_holds [of two_circles 0 1 0 1 "(0, two_circles)" 0 2 two_circles]
    overlapping_two_circles
  by blast

subsection \<open>Frame conditions: claim C10\<close>

lemma compute_forces_returns:
  "end_idx \<le> length cs \<Longrightarrow> \<exists>n cs'. compute_forces start end_idx cs = Inr (n, cs')"
  by (simp add: compute_forces_pure)

lemma move_circles_frame:
  "map r (move_circles cs) = map r cs"
  "map dx (move_circles cs) = map dx cs"
  "map dy (move_circles cs) = map dy cs"
  "map x (move_circles cs) = map (\<lambda>c. x c + dx c) cs"
  "map y (move_circles cs) = map (\<lambda>c. y c + dy c) cs"
  by (simp_all add: move_circles_map)

text \<open>
  Claim C10. \<^verbatim>\<open>compute_forces\<close> returns whenever its range ends inside the array, and
  whenever it returns, the array has the same length and every circle has the \<open>x\<close>,
  \<open>y\<close> and \<open>r\<close> it had. \<^verbatim>\<open>move_circles\<close> keeps the length and the \<open>r\<close>, \<open>dx\<close> and
  \<open>dy\<close> of every circle, and adds \<open>dx\<close> to \<open>x\<close> and \<open>dy\<close> to \<open>y\<close>.
\<close>

theorem frame_conditions:
  "(end_idx \<le> length cs \<longrightarrow> (\<exists>n cs'. compute_forces start end_idx cs = Inr (n, cs')))
   \<and> (compute_forces start end_idx cs = Inr (n, cs') \<longrightarrow>
        length cs' = length cs \<and> map x cs' = map x cs \<and> map y cs' = map y cs \<and> map r cs' = map r cs)
   \<and> length (move_circles cs) = length cs
   \<and> map r (move_circles cs) = map r cs
   \<and> map dx (move_circles cs) = map dx cs
   \<and> map dy (move_circles cs) = map dy cs
   \<and> map x (move_circles cs) = map (\<lambda>c. x c + dx c) cs
   \<and> map y (move_circles cs) = map (\<lambda>c. y c + dy c) cs"
proof (intro conjI impI)
  assume "end_idx \<le> length cs"
  then show "\<exists>n cs'. compute_forces start end_idx cs = Inr (n, cs')"
    by (rule compute_forces_returns)
next
  assume a: "compute_forces start end_idx cs = Inr (n, cs')"
  note f = compute_forces_frame [OF a]
  from f show "map x cs' = map x cs" and "map y cs' = map y cs" and "map r cs' = map r cs"
    by simp_all
  from f have "length (map x cs') = length (map x cs)" by simp
  then show "length cs' = length cs" by simp
qed (simp_all add: move_circles_map)

theorem frame_conditions_witness:
  "(2::nat) \<le> length two_circles
   \<and> compute_forces 0 2 two_circles =
       Inr (2, [\<lparr>x = 0, y = 0, r = 10, dx = -20, dy = 0\<rparr>, \<lparr>x = 5, y = 0, r = 10, dx = 20, dy = 0\<rparr>])
   \<and> map x [\<lparr>x = 0, y = 0, r = 10, dx = -20, dy = 0\<rparr>, \<lparr>x = 5, y = 0, r = 10, dx = 20, dy = 0\<rparr>]
       = map x two_circles
   \<and> map y [\<lparr>x = 0, y = 0, r = 10, dx = -20, dy = 0\<rparr>, \<lparr>x = 5, y = 0, r = 10, dx = 20, dy = 0\<rparr>]
       = map y two_circles
   \<and> map r [\<lparr>x = 0, y = 0, r = 10, dx = -20, dy = 0\<rparr>, \<lparr>x = 5, y = 0, r = 10, dx = 20, dy = 0\<rparr>]
       = map r two_circles
   \<and> map x (move_circles [\<lparr>x = 0, y = 0, r = 10, dx = -20, dy = 0\<rparr>]) = [- 20]
   \<and> map dx (move_circles [\<lparr>x = 0, y = 0, r = 10, dx = -20, dy = 0\<rparr>]) = [- 20]"
proof -
  let ?res = "[\<lparr>x = 0, y = 0, r = 10, dx = -20, dy = 0\<rparr>, \<lparr>x = 5, y = 0, r = 10, dx = 20, dy = 0\<rparr>]"
  note t = frame_conditions [of 2 two_circles 0 2 ?res]
  have l: "(2::nat) \<le> length two_circles" by (simp add: two_circles_def)
  from t compute_forces_two_circles
  have "map x ?res = map x two_circles \<and> map y ?res = map y two_circles \<and> map r ?res = map r two_circles"
    by blast
  moreover
  note u = frame_conditions [of 0 "[\<lparr>x = 0, y = 0, r = 10, dx = -20, dy = 0\<rparr>]" 0 0 "[]"]
  from u have "map x (move_circles [\<lparr>x = 0, y = 0, r = 10, dx = -20, dy = 0\<rparr>]) = [- 20]
     \<and> map dx (move_circles [\<lparr>x = 0, y = 0, r = 10, dx = -20, dy = 0\<rparr>]) = [- 20]"
    by simp
  ultimately show ?thesis
    using l compute_forces_two_circles by blast
qed

section \<open>One iteration of all ranks\<close>

lemma emap_Inr:
  "(\<And>a. a \<in> set as \<Longrightarrow> f a = Inr (g a)) \<Longrightarrow> emap f as = Inr (map g as)"
  by (induction as) simp_all

lemma length_reset [simp]: "length (reset_displacements cs) = length cs"
  by (simp add: reset_displacements_map)

lemma length_move [simp]: "length (move_circles cs) = length cs"
  by (simp add: move_circles_map)

lemma MPI_Bcast_replicate:
  "MPI_Bcast k bufs = replicate (length bufs) (bufs ! k)"
  by (simp add: MPI_Bcast_def map_replicate_const)

lemma length_Allgather [simp]:
  "length (MPI_Allgather_IN_PLACE cnt bufs) = length bufs"
  by (simp add: MPI_Allgather_IN_PLACE_def)

lemma nth_Allgather:
  assumes "rank < length bufs"
  shows "MPI_Allgather_IN_PLACE cnt bufs ! rank =
           map (\<lambda>c. if c < length bufs * cnt then bufs ! (c div cnt) ! c else bufs ! rank ! c)
             [0..<length (bufs ! rank)]"
  using assms by (simp add: MPI_Allgather_IN_PLACE_def)

lemma local_compute_share:
  assumes "rank < comm_size" "comm_size * length cs \<le> 2147483647"
  shows "local_compute comm_size rank cs =
           compute_forces (share_start rank (length cs) comm_size)
             (share_end rank (length cs) comm_size) (reset_displacements cs)"
  by (simp add: local_compute_def Let_def part_no_overflow [OF assms])

lemma local_compute_pure:
  assumes "rank < comm_size" "comm_size * length cs \<le> 2147483647"
  shows "local_compute comm_size rank cs = Inr (local_result comm_size cs rank)"
proof -
  have "share_end rank (length cs) comm_size \<le> length (reset_displacements cs)"
    using assms(1) by (simp add: share_end_le_ncircles)
  then show ?thesis
    by (simp add: local_compute_share [OF assms] compute_forces_pure local_result_def local_pairs_def)
qed

lemma iteration_replicate:
  assumes "0 < comm_size" "comm_size * length cs \<le> 2147483647"
  shows "iteration ncircles (replicate comm_size cs) =
           Inr (sum_list (map (\<lambda>rank. fst (local_result comm_size cs rank)) [0..<comm_size]),
                replicate comm_size
                  (move_circles
                     (gather_displacements ncircles
                        (map (local_result comm_size cs) [0..<comm_size]) ! 0)))"
proof -
  have "emap (\<lambda>rank. local_compute (length (replicate comm_size cs)) rank
                (replicate comm_size cs ! rank)) [0..<length (replicate comm_size cs)]
        = Inr (map (local_result comm_size cs) [0..<comm_size])"
    by (simp, rule emap_Inr) (simp add: local_compute_pure assms(2))
  then show ?thesis
    using assms(1)
    by (simp add: iteration_def Let_def MPI_Reduce_SUM_def MPI_Bcast_replicate
        gather_displacements_def comp_def nth_map)
qed

subsection \<open>Arrays without overlaps\<close>

lemma geometry_reset:
  assumes "i < length cs" "j < length cs"
  shows "dist_ij (reset_displacements cs) i j = dist_ij cs i j"
    and "overlapping (reset_displacements cs) i j = overlapping cs i j"
    and "push_x (reset_displacements cs) i j = push_x cs i j"
    and "push_y (reset_displacements cs) i j = push_y cs i j"
  using assms
  by (simp_all add: dist_ij_def overlapping_def push_x_def push_y_def overlap_x_def overlap_y_def
      reset_displacements_map Let_def)

lemma quiet_reset: "quiet (reset_displacements cs) = quiet cs"
  by (simp add: quiet_def geometry_reset)

lemma reset_reset: "reset_displacements (reset_displacements cs) = reset_displacements cs"
  by (simp add: reset_displacements_map)

lemma move_reset: "move_circles (reset_displacements cs) = reset_displacements cs"
  by (simp add: reset_displacements_map move_circles_map)

lemma sum_list_zero:
  "(\<And>p. p \<in> set ps \<Longrightarrow> f p = (0::real)) \<Longrightarrow> sum_list (map f ps) = 0"
  by (induction ps) simp_all

lemma set_local_pairs:
  assumes "rank < comm_size" "(i, j) \<in> set (local_pairs comm_size rank n)"
  shows "i < n" "j < n" "share_start rank n comm_size \<le> i" "i < share_end rank n comm_size"
  using assms share_end_le_ncircles [OF assms(1), of n]
  by (auto simp: local_pairs_def scanned_def)

lemma accum_quiet:
  assumes "quiet cs" "\<And>i j. (i, j) \<in> set ps \<Longrightarrow> i < length cs \<and> j < length cs"
  shows "accum cs ps = cs"
proof (rule nth_equalityI)
  show "length (accum cs ps) = length cs" by simp
next
  fix c
  assume "c < length (accum cs ps)"
  then have c: "c < length cs" by simp
  have "\<And>p. p \<in> set ps \<Longrightarrow> (case p of (i, j) \<Rightarrow> disp_x cs i j c) = 0"
    using assms by (auto simp: quiet_def disp_x_def)
  then have zx: "sum_list (map (\<lambda>(i, j). disp_x cs i j c) ps) = 0"
    by (rule sum_list_zero)
  have "\<And>p. p \<in> set ps \<Longrightarrow> (case p of (i, j) \<Rightarrow> disp_y cs i j c) = 0"
    using assms by (auto simp: quiet_def disp_y_def)
  then have zy: "sum_list (map (\<lambda>(i, j). disp_y cs i j c) ps) = 0"
    by (rule sum_list_zero)
  show "accum cs ps ! c = cs ! c"
    using c by (simp add: nth_accum zx zy)
qed

lemma filter_quiet:
  assumes "quiet cs" "\<And>i j. (i, j) \<in> set ps \<Longrightarrow> i < length cs \<and> j < length cs"
  shows "filter (\<lambda>(i, j). overlapping cs i j) ps = []"
  using assms by (auto simp: quiet_def filter_empty_conv)

lemma local_result_quiet:
  assumes "quiet cs" "rank < comm_size"
  shows "local_result comm_size cs rank = (0, reset_displacements cs)"
proof -
  have q: "quiet (reset_displacements cs)"
    using assms by (simp add: quiet_reset)
  have b: "\<And>i j. (i, j) \<in> set (local_pairs comm_size rank (length cs)) \<Longrightarrow>
             i < length (reset_displacements cs) \<and> j < length (reset_displacements cs)"
    using set_local_pairs [OF assms(2)] by simp
  show ?thesis
    by (simp add: local_result_def accum_quiet [OF q b] filter_quiet [OF q b])
qed

lemma Allgather_replicate:
  "MPI_Allgather_IN_PLACE cnt (replicate k b) = replicate k b"
proof (rule nth_equalityI)
  show "length (MPI_Allgather_IN_PLACE cnt (replicate k b)) = length (replicate k b)"
    by simp
next
  fix rank
  assume "rank < length (MPI_Allgather_IN_PLACE cnt (replicate k b))"
  then have rk: "rank < k" by simp
  have "\<And>c. c < k * cnt \<Longrightarrow> c div cnt < k"
    by (simp add: less_mult_imp_div_less)
  then have "map (\<lambda>c. if c < k * cnt then replicate k b ! (c div cnt) ! c
                      else replicate k b ! rank ! c) [0..<length b]
             = map (\<lambda>c. b ! c) [0..<length b]"
    using rk by (intro map_cong) auto
  then show "MPI_Allgather_IN_PLACE cnt (replicate k b) ! rank = replicate k b ! rank"
    using rk by (simp add: nth_Allgather map_nth)
qed

lemma iteration_quiet:
  assumes "0 < comm_size" "quiet cs" "comm_size * length cs \<le> 2147483647"
  shows "iteration ncircles (replicate comm_size cs) =
           Inr (0, replicate comm_size (reset_displacements cs))"
proof -
  have m: "map (local_result comm_size cs) [0..<comm_size]
           = replicate comm_size (0, reset_displacements cs)"
    using assms(2) by (intro nth_equalityI) (simp_all add: local_result_quiet)
  show ?thesis
    using assms(1)
    by (simp add: iteration_replicate [OF assms(1,3)] m gather_displacements_def
        Allgather_replicate move_reset local_result_quiet [OF assms(2)])
qed

lemma iterations_loop_quiet:
  assumes "0 < comm_size" "quiet cs" "comm_size * length cs \<le> 2147483647"
  shows "iterations_loop ncircles k (replicate comm_size cs) =
           Inr (replicate k 0, replicate comm_size (if k = 0 then cs else reset_displacements cs))"
  using assms(2,3)
proof (induction k arbitrary: cs)
  case 0
  then show ?case by simp
next
  case (Suc k)
  have q: "quiet (reset_displacements cs)"
    using Suc.prems(1) by (simp add: quiet_reset)
  have b: "comm_size * length (reset_displacements cs) \<le> 2147483647"
    using Suc.prems(2) by simp
  show ?case
    by (simp add: iteration_quiet [OF assms(1) Suc.prems] Suc.IH [OF q b] reset_reset)
qed

subsection \<open>One circle and two circles: claims C1, C2, C8 and C9\<close>

lemma quiet_single: "quiet [c]"
  by (simp add: quiet_def overlapping_def)

lemma compute_forces_single: "compute_forces 0 (Suc 0) [c] = Inr (0, [c])"
  by (simp add: compute_forces_def pair_step_same)

lemma reset_two_circles: "reset_displacements two_circles = two_circles"
  by (simp add: reset_displacements_map two_circles_def)

lemma length_two_circles: "length two_circles = 2"
  by (simp add: two_circles_def)

lemma local_compute_two_circles_1:
  "local_compute 1 0 two_circles =
     Inr (2, [\<lparr>x = 0, y = 0, r = 10, dx = -20, dy = 0\<rparr>, \<lparr>x = 5, y = 0, r = 10, dx = 20, dy = 0\<rparr>])"
  by (simp add: local_compute_share reset_two_circles length_two_circles share_start_def share_end_def
      compute_forces_two_circles)

lemma iteration_two_circles_1:
  "iteration 2 [two_circles] =
     Inr (2, [[\<lparr>x = -20, y = 0, r = 10, dx = -20, dy = 0\<rparr>, \<lparr>x = 25, y = 0, r = 10, dx = 20, dy = 0\<rparr>]])"
proof -
  have "emap (\<lambda>rank. local_compute (length [two_circles]) rank ([two_circles] ! rank))
          [0..<length [two_circles]]
        = Inr [(2, [\<lparr>x = 0, y = 0, r = 10, dx = -20, dy = 0\<rparr>, \<lparr>x = 5, y = 0, r = 10, dx = 20, dy = 0\<rparr>])]"
    by (simp add: local_compute_two_circles_1 [simplified])
  then show ?thesis
    unfolding iteration_def
    by (simp add: Let_def MPI_Reduce_SUM_def gather_displacements_def MPI_Allgather_IN_PLACE_def
        upt_0_2 move_circles_map MPI_Bcast_def)
qed

lemma compute_forces_two_circles_rank0:
  "compute_forces 0 (Suc 0) two_circles =
     Inr (1, [\<lparr>x = 0, y = 0, r = 10, dx = -10, dy = 0\<rparr>, \<lparr>x = 5, y = 0, r = 10, dx = 10, dy = 0\<rparr>])"
  by (simp add: compute_forces_def two_circles_def upt_0_2 pair_step_def
      EPSILON_def K_def overlap_xy_def fdiv_def apply_overlap_def sub_dx_def sub_dy_def add_dx_def add_dy_def Let_def)

lemma upt_1_2: "[Suc 0..<2] = [Suc 0]"
  by (simp add: numeral_2_eq_2)

lemma compute_forces_two_circles_rank1:
  "compute_forces (Suc 0) 2 two_circles =
     Inr (1, [\<lparr>x = 0, y = 0, r = 10, dx = -10, dy = 0\<rparr>, \<lparr>x = 5, y = 0, r = 10, dx = 10, dy = 0\<rparr>])"
  by (simp add: compute_forces_def two_circles_def upt_0_2 upt_1_2 pair_step_def
      EPSILON_def K_def overlap_xy_def fdiv_def apply_overlap_def sub_dx_def sub_dy_def add_dx_def add_dy_def Let_def)

lemma local_compute_two_circles_2:
  "local_compute 2 0 two_circles =
     Inr (1, [\<lparr>x = 0, y = 0, r = 10, dx = -10, dy = 0\<rparr>, \<lparr>x = 5, y = 0, r = 10, dx = 10, dy = 0\<rparr>])"
  "local_compute 2 (Suc 0) two_circles =
     Inr (1, [\<lparr>x = 0, y = 0, r = 10, dx = -10, dy = 0\<rparr>, \<lparr>x = 5, y = 0, r = 10, dx = 10, dy = 0\<rparr>])"
  by (simp_all add: local_compute_share reset_two_circles length_two_circles share_start_def share_end_def
      compute_forces_two_circles_rank0 compute_forces_two_circles_rank1 numeral_2_eq_2 [symmetric])

lemma locals_two_circles_2:
  "emap (\<lambda>rank. local_compute (length [two_circles, two_circles]) rank
                  ([two_circles, two_circles] ! rank)) [0..<length [two_circles, two_circles]]
   = Inr [(1, [\<lparr>x = 0, y = 0, r = 10, dx = -10, dy = 0\<rparr>, \<lparr>x = 5, y = 0, r = 10, dx = 10, dy = 0\<rparr>]),
          (1, [\<lparr>x = 0, y = 0, r = 10, dx = -10, dy = 0\<rparr>, \<lparr>x = 5, y = 0, r = 10, dx = 10, dy = 0\<rparr>])]"
  by (simp add: local_compute_two_circles_2 numeral_2_eq_2 [symmetric] upt_0_2)

lemma iteration_two_circles_2:
  "iteration 2 [two_circles, two_circles] =
     Inr (2, [[\<lparr>x = -10, y = 0, r = 10, dx = -10, dy = 0\<rparr>, \<lparr>x = 15, y = 0, r = 10, dx = 10, dy = 0\<rparr>],
              [\<lparr>x = -10, y = 0, r = 10, dx = -10, dy = 0\<rparr>, \<lparr>x = 15, y = 0, r = 10, dx = 10, dy = 0\<rparr>]])"
  unfolding iteration_def locals_two_circles_2
  by (simp add: Let_def MPI_Reduce_SUM_def gather_displacements_def MPI_Allgather_IN_PLACE_def
        upt_0_2 move_circles_map MPI_Bcast_def numeral_2_eq_2 [symmetric])

lemma unordered_overlaps_two_circles: "unordered_overlaps two_circles = 1"
  unfolding unordered_overlaps_def length_two_circles upt_0_2
  using overlapping_two_circles by (simp add: overlapping_def)

text \<open>
  Claim C1, on the code. Two circles at \<open>(0, 0)\<close> and \<open>(5, 0)\<close> with radius 10 are one
  overlapping pair; the total that rank 0 reports for the iteration is 2, with one rank
  and with two: the scan visits \<open>(0, 1)\<close> and \<open>(1, 0)\<close> and counts both.
\<close>

theorem total_counts_pair_twice:
  "unordered_overlaps two_circles = 1
   \<and> (\<exists>w. iteration 2 [two_circles] = Inr (2, w))
   \<and> (\<exists>w. iteration 2 [two_circles, two_circles] = Inr (2, w))"
  using unordered_overlaps_two_circles iteration_two_circles_1 iteration_two_circles_2
  by blast

text \<open>
  Claim C2, on the code. With two ranks and the two circles above, each rank
  accumulates \<open>- 10\<close> for circle 0, so the contributions of all ranks sum to \<open>- 20\<close>; after
  the gather of line 278, every rank holds \<open>- 10\<close> for circle 0, the value of rank 0 alone.
\<close>

theorem gather_keeps_one_rank:
  "emap (\<lambda>rank. local_compute (length [two_circles, two_circles]) rank
                  ([two_circles, two_circles] ! rank)) [0..<length [two_circles, two_circles]]
     = Inr [(1, [\<lparr>x = 0, y = 0, r = 10, dx = -10, dy = 0\<rparr>, \<lparr>x = 5, y = 0, r = 10, dx = 10, dy = 0\<rparr>]),
            (1, [\<lparr>x = 0, y = 0, r = 10, dx = -10, dy = 0\<rparr>, \<lparr>x = 5, y = 0, r = 10, dx = 10, dy = 0\<rparr>])]
   \<and> summed_dx
         [(1, [\<lparr>x = 0, y = 0, r = 10, dx = -10, dy = 0\<rparr>, \<lparr>x = 5, y = 0, r = 10, dx = 10, dy = 0\<rparr>]),
          (1, [\<lparr>x = 0, y = 0, r = 10, dx = -10, dy = 0\<rparr>, \<lparr>x = 5, y = 0, r = 10, dx = 10, dy = 0\<rparr>])] 0
       = - 20
   \<and> map (\<lambda>buf. dx (buf ! 0))
         (gather_displacements 2
            [(1, [\<lparr>x = 0, y = 0, r = 10, dx = -10, dy = 0\<rparr>, \<lparr>x = 5, y = 0, r = 10, dx = 10, dy = 0\<rparr>]),
             (1, [\<lparr>x = 0, y = 0, r = 10, dx = -10, dy = 0\<rparr>, \<lparr>x = 5, y = 0, r = 10, dx = 10, dy = 0\<rparr>])])
       = [- 10, - 10]"
proof (intro conjI)
  show "map (\<lambda>buf. dx (buf ! 0))
         (gather_displacements 2
            [(1, [\<lparr>x = 0, y = 0, r = 10, dx = -10, dy = 0\<rparr>, \<lparr>x = 5, y = 0, r = 10, dx = 10, dy = 0\<rparr>]),
             (1, [\<lparr>x = 0, y = 0, r = 10, dx = -10, dy = 0\<rparr>, \<lparr>x = 5, y = 0, r = 10, dx = 10, dy = 0\<rparr>])])
       = [- 10, - 10]"
    by (simp add: gather_displacements_def MPI_Allgather_IN_PLACE_def upt_0_2
        numeral_2_eq_2 [symmetric])
qed (rule locals_two_circles_2, simp add: summed_dx_def)

text \<open>
  Claim C8, on the code. One iteration of one rank on the two circles at \<open>(0, 0)\<close> and
  \<open>(5, 0)\<close> with radius 10: the total printed is 2, the circle at the origin moves to
  \<open>x = - 20\<close> and the other to \<open>x = 25\<close> (20 each way), and \<open>y\<close> stays 0.
\<close>

theorem two_circles_one_iteration:
  "run 1 1 two_circles =
     Inr ([2], [[\<lparr>x = -20, y = 0, r = 10, dx = -20, dy = 0\<rparr>, \<lparr>x = 25, y = 0, r = 10, dx = 20, dy = 0\<rparr>]])"
  by (simp add: run_def length_two_circles iteration_two_circles_1)

text \<open>
  Claim C9. With one circle and any number of ranks (a positive \<^verbatim>\<open>int\<close>, so at most
  2147483647), \<^verbatim>\<open>compute_forces\<close> over the whole
  range returns 0 and leaves the array as it is, every iteration reports 0 overlaps, and
  at the end every rank holds the circle where it was (with its displacement reset once
  an iteration has run).
\<close>

theorem single_circle_unchanged:
  assumes "1 \<le> comm_size" "comm_size \<le> 2147483647"
  shows "compute_forces 0 1 [c] = Inr (0, [c])
       \<and> move_circles (reset_displacements [c]) = reset_displacements [c]
       \<and> run comm_size iterations [c] =
           Inr (replicate iterations 0,
                replicate comm_size (if iterations = 0 then [c] else [c\<lparr>dx := 0, dy := 0\<rparr>]))
       \<and> x (c\<lparr>dx := 0, dy := 0\<rparr>) = x c \<and> y (c\<lparr>dx := 0, dy := 0\<rparr>) = y c"
proof -
  have "0 < comm_size" using assms(1) by simp
  moreover have "comm_size * length [c] \<le> 2147483647" using assms(2) by simp
  ultimately have "iterations_loop 1 iterations (replicate comm_size [c]) =
           Inr (replicate iterations 0,
                replicate comm_size (if iterations = 0 then [c] else reset_displacements [c]))"
    using quiet_single by (intro iterations_loop_quiet)
  then
  have "run comm_size iterations [c] =
           Inr (replicate iterations 0,
                replicate comm_size (if iterations = 0 then [c] else [c\<lparr>dx := 0, dy := 0\<rparr>]))"
    by (simp add: run_def reset_displacements_map)
  then show ?thesis
    by (simp add: compute_forces_single move_reset)
qed

theorem single_circle_unchanged_witness:
  "(1::nat) \<le> 4 \<and> (4::nat) \<le> 2147483647
   \<and> compute_forces 0 1 [\<lparr>x = 7, y = 9, r = 10, dx = 1, dy = 2\<rparr>]
       = Inr (0, [\<lparr>x = 7, y = 9, r = 10, dx = 1, dy = 2\<rparr>])
   \<and> run 4 3 [\<lparr>x = 7, y = 9, r = 10, dx = 1, dy = 2\<rparr>]
       = Inr ([0, 0, 0], replicate 4 [\<lparr>x = 7, y = 9, r = 10, dx = 0, dy = 0\<rparr>])"
proof -
  have h: "(1::nat) \<le> 4" "(4::nat) \<le> 2147483647" by simp_all
  from single_circle_unchanged [OF h, of "\<lparr>x = 7, y = 9, r = 10, dx = 1, dy = 2\<rparr>" 3]
  show ?thesis by (simp add: numeral_3_eq_3)
qed

section \<open>A run of 1000 circles: claim C3\<close>

lemma length_thousand [simp]: "length (thousand xa xb da db) = 1000"
  by (simp add: thousand_def)

lemma nth_thousand:
  "c < 1000 \<Longrightarrow>
     thousand xa xb da db ! c =
       (if c = 0 then \<lparr>x = xa, y = 0, r = 10, dx = da, dy = 0\<rparr>
        else if c = 999 then \<lparr>x = xb, y = 0, r = 10, dx = db, dy = 0\<rparr>
        else grid_circle c)"
  by (simp add: thousand_def)

lemma hypotf_ge1: "\<bar>a\<bar> \<le> hypotf a b"
proof -
  have "sqrt (a * a) \<le> sqrt (a * a + b * b)"
    by (rule real_sqrt_le_mono) simp
  then show ?thesis by (simp add: hypotf_def)
qed

lemma hypotf_ge2: "\<bar>b\<bar> \<le> hypotf a b"
proof -
  have "sqrt (b * b) \<le> sqrt (a * a + b * b)"
    by (rule real_sqrt_le_mono) simp
  then show ?thesis by (simp add: hypotf_def)
qed

lemma nat_apart:
  fixes m k :: nat
  assumes "m \<noteq> k"
  shows "31 \<le> \<bar>31 * real m - 31 * real k\<bar>"
proof -
  from assms consider "m + 1 \<le> k" | "k + 1 \<le> m" by linarith
  then show ?thesis
  proof cases
    case 1
    then have "real m + 1 \<le> real k" by linarith
    then show ?thesis by linarith
  next
    case 2
    then have "real k + 1 \<le> real m" by linarith
    then show ?thesis by linarith
  qed
qed

lemma grid_apart:
  assumes "c \<noteq> d"
  shows "31 \<le> \<bar>x (grid_circle d) - x (grid_circle c)\<bar> \<or> 31 \<le> \<bar>y (grid_circle d) - y (grid_circle c)\<bar>"
proof -
  have "(c + 31) mod 32 \<noteq> (d + 31) mod 32 \<or> (c + 31) div 32 \<noteq> (d + 31) div 32"
  proof (rule ccontr)
    assume "\<not> ?thesis"
    then have "(c + 31) mod 32 = (d + 31) mod 32" "(c + 31) div 32 = (d + 31) div 32"
      by simp_all
    then have "c + 31 = d + 31"
      by (metis div_mult_mod_eq)
    then show False using assms by simp
  qed
  then show ?thesis
    using nat_apart [of "(d + 31) mod 32" "(c + 31) mod 32"]
      nat_apart [of "(d + 31) div 32" "(c + 31) div 32"]
    by (auto simp: grid_circle_def)
qed

lemma grid_row:
  assumes "0 < c"
  shows "31 \<le> y (grid_circle c)"
proof -
  have "1 \<le> (c + 31) div 32" using assms by simp
  then have "1 \<le> real ((c + 31) div 32)" by linarith
  then show ?thesis by (simp add: grid_circle_def)
qed

lemma thousand_far_apart:
  assumes "c < 1000" "d < 1000" "c \<noteq> d" "\<not> (c = 0 \<and> d = 999)" "\<not> (c = 999 \<and> d = 0)"
  shows "31 \<le> dist_ij (thousand xa xb da db) c d"
proof -
  let ?T = "thousand xa xb da db"
  have "31 \<le> \<bar>x (?T ! d) - x (?T ! c)\<bar> \<or> 31 \<le> \<bar>y (?T ! d) - y (?T ! c)\<bar>"
  proof (cases "c = 0 \<or> c = 999")
    case True
    then have d: "d \<noteq> 0" "d \<noteq> 999" using assms by auto
    then have "31 \<le> y (grid_circle d)" by (simp add: grid_row)
    then show ?thesis using True d assms by (auto simp: nth_thousand)
  next
    case False
    note c = this
    show ?thesis
    proof (cases "d = 0 \<or> d = 999")
      case True
      have "31 \<le> y (grid_circle c)" using c by (simp add: grid_row)
      then show ?thesis using True c assms by (auto simp: nth_thousand)
    next
      case False
      then show ?thesis using c assms grid_apart [of c d] by (simp add: nth_thousand)
    qed
  qed
  then show ?thesis
    using hypotf_ge1 [of "x (?T ! d) - x (?T ! c)" "y (?T ! d) - y (?T ! c)"]
      hypotf_ge2 [of "y (?T ! d) - y (?T ! c)" "x (?T ! d) - x (?T ! c)"]
    unfolding dist_ij_def by linarith
qed

lemma thousand_dist_special:
  "dist_ij (thousand xa xb da db) 0 999 = \<bar>xb - xa\<bar>"
  "dist_ij (thousand xa xb da db) 999 0 = \<bar>xb - xa\<bar>"
  by (simp_all add: dist_ij_def nth_thousand)

lemma thousand_overlapping:
  assumes "i < 1000" "j < 1000"
  shows "overlapping (thousand xa xb da db) i j \<longleftrightarrow>
           (i = 0 \<and> j = 999 \<or> i = 999 \<and> j = 0) \<and> \<bar>xb - xa\<bar> < 20 - EPSILON"
proof (cases "i = 0 \<and> j = 999 \<or> i = 999 \<and> j = 0")
  case True
  then show ?thesis
    by (auto simp: overlapping_def thousand_dist_special nth_thousand)
next
  case False
  show ?thesis
  proof (cases "i = j")
    case True
    then show ?thesis using False by (simp add: overlapping_def)
  next
    case ne: False
    have "31 \<le> dist_ij (thousand xa xb da db) i j"
      using assms ne False by (intro thousand_far_apart) auto
    moreover have "r (thousand xa xb da db ! i) = 10" "r (thousand xa xb da db ! j) = 10"
      using assms by (simp_all add: nth_thousand grid_circle_def)
    ultimately show ?thesis
      using False EPSILON_pos by (simp add: overlapping_def)
  qed
qed

lemma sum_list_product:
  "sum_list (map (\<lambda>(i, j). f i j) (List.product as bs))
     = sum_list (map (\<lambda>i. sum_list (map (f i) bs)) as)"
  by (induction as) (simp_all add: comp_def)

lemma sum_list_scanned:
  fixes f :: "nat \<Rightarrow> nat \<Rightarrow> 'a::comm_monoid_add"
  shows "sum_list (map (\<lambda>(i, j). f i j) (scanned s e n)) = (\<Sum>i = s..<e. \<Sum>j = 0..<n. f i j)"
  by (simp add: scanned_def sum_list_product interv_sum_list_conv_sum_set_nat)

lemma sum_single_pair:
  fixes u :: "'a::comm_monoid_add" and s e n a b :: nat
  shows "(\<Sum>i = s..<e. \<Sum>j = 0..<n. if i = a \<and> j = b then u else 0)
           = (if s \<le> a \<and> a < e \<and> b < n then u else 0)"
proof -
  have inner: "\<And>i. (\<Sum>j = 0..<n. if i = a \<and> j = b then u else 0)
                  = (if i = a then (if b < n then u else 0) else 0)"
  proof -
    fix i
    have "(\<Sum>j = 0..<n. if i = a \<and> j = b then u else 0)
            = (\<Sum>j = 0..<n. if j = b then (if i = a then u else 0) else 0)"
      by (intro sum.cong) auto
    also have "\<dots> = (if b \<in> {0..<n} then (if i = a then u else 0) else 0)"
      by (subst sum.delta) simp_all
    finally show "(\<Sum>j = 0..<n. if i = a \<and> j = b then u else 0)
                  = (if i = a then (if b < n then u else 0) else 0)"
      by auto
  qed
  have "(\<Sum>i = s..<e. if i = a then (if b < n then u else 0) else 0)
          = (if a \<in> {s..<e} then (if b < n then u else 0) else 0)"
    by (subst sum.delta) simp_all
  then show ?thesis
    by (auto simp: inner)
qed

lemma sum_two_pairs:
  fixes f :: "nat \<Rightarrow> nat \<Rightarrow> 'a::comm_monoid_add"
  assumes "e \<le> n" "a < n" "b < n" "a \<noteq> b"
    and "\<And>i j. i < n \<Longrightarrow> j < n \<Longrightarrow> \<not> (i = a \<and> j = b) \<Longrightarrow> \<not> (i = b \<and> j = a) \<Longrightarrow> f i j = 0"
  shows "sum_list (map (\<lambda>(i, j). f i j) (scanned s e n))
           = (if s \<le> a \<and> a < e then f a b else 0) + (if s \<le> b \<and> b < e then f b a else 0)"
proof -
  have "(\<Sum>i = s..<e. \<Sum>j = 0..<n. f i j)
        = (\<Sum>i = s..<e. \<Sum>j = 0..<n.
             (if i = a \<and> j = b then f a b else 0) + (if i = b \<and> j = a then f b a else 0))"
  proof (intro sum.cong refl)
    fix i j
    assume "i \<in> {s..<e}" "j \<in> {0..<n}"
    then have "i < n" "j < n" using assms(1) by auto
    then show "f i j = (if i = a \<and> j = b then f a b else 0) + (if i = b \<and> j = a then f b a else 0)"
      using assms(4) assms(5) [of i j] by auto
  qed
  also have "\<dots> = (\<Sum>i = s..<e. \<Sum>j = 0..<n. if i = a \<and> j = b then f a b else 0)
                  + (\<Sum>i = s..<e. \<Sum>j = 0..<n. if i = b \<and> j = a then f b a else 0)"
    by (simp add: sum.distrib)
  also have "\<dots> = (if s \<le> a \<and> a < e then f a b else 0) + (if s \<le> b \<and> b < e then f b a else 0)"
    using assms(2,3) by (simp add: sum_single_pair)
  finally show ?thesis
    by (simp add: sum_list_scanned)
qed

lemma length_filter_sum:
  "length (filter P ps) = sum_list (map (\<lambda>p. if P p then 1 else 0) ps)"
  by (induction ps) simp_all

lemma reset_thousand: "reset_displacements (thousand xa xb da db) = thousand xa xb 0 0"
  by (simp add: reset_displacements_map thousand_def grid_circle_def)

lemma move_thousand: "move_circles (thousand xa xb da db) = thousand (xa + da) (xb + db) da db"
  by (simp add: move_circles_map thousand_def grid_circle_def)

lemma thousand_circles_overlapping:
  "overlapping thousand_circles 0 999" "overlapping thousand_circles 999 0"
  by (simp_all add: thousand_circles_def thousand_overlapping) (simp_all add: EPSILON_def)

lemma thousand_circles_push:
  "push_x thousand_circles 0 999 = 8" "push_y thousand_circles 0 999 = 0"
  "push_x thousand_circles 999 0 = - 8" "push_y thousand_circles 999 0 = 0"
  unfolding push_x_def push_y_def overlap_x_def overlap_y_def thousand_circles_def thousand_dist_special
  by (simp_all add: nth_thousand EPSILON_def K_def)

lemma thousand_circles_disp:
  "disp_x thousand_circles 0 999 c = (if c = 999 then 8 else 0) - (if c = 0 then 8 else 0)"
  "disp_x thousand_circles 999 0 c = (if c = 999 then 8 else 0) - (if c = 0 then 8 else 0)"
  "disp_y thousand_circles 0 999 c = 0"
  "disp_y thousand_circles 999 0 c = 0"
  by (simp_all add: disp_x_def disp_y_def thousand_circles_overlapping thousand_circles_push)

lemma thousand_circles_disp_zero:
  assumes "i < 1000" "j < 1000" "\<not> (i = 0 \<and> j = 999)" "\<not> (i = 999 \<and> j = 0)"
  shows "disp_x thousand_circles i j c = 0" "disp_y thousand_circles i j c = 0"
proof -
  have "\<not> overlapping thousand_circles i j"
    using assms by (auto simp: thousand_circles_def thousand_overlapping)
  then show "disp_x thousand_circles i j c = 0" "disp_y thousand_circles i j c = 0"
    by (simp_all add: disp_x_def disp_y_def)
qed

lemma thousand_circles_sums:
  assumes "e \<le> 1000"
  shows "sum_list (map (\<lambda>(i, j). disp_x thousand_circles i j c) (scanned s e 1000))
           = (if c = 999 then 8 * real (special_in s e) else 0)
             - (if c = 0 then 8 * real (special_in s e) else 0)"
    and "sum_list (map (\<lambda>(i, j). disp_y thousand_circles i j c) (scanned s e 1000)) = 0"
proof -
  have "sum_list (map (\<lambda>(i, j). disp_x thousand_circles i j c) (scanned s e 1000))
          = (if s \<le> 0 \<and> 0 < e then disp_x thousand_circles 0 999 c else 0)
            + (if s \<le> 999 \<and> 999 < e then disp_x thousand_circles 999 0 c else 0)"
    using assms by (intro sum_two_pairs) (simp_all add: thousand_circles_disp_zero)
  then show "sum_list (map (\<lambda>(i, j). disp_x thousand_circles i j c) (scanned s e 1000))
           = (if c = 999 then 8 * real (special_in s e) else 0)
             - (if c = 0 then 8 * real (special_in s e) else 0)"
    by (simp add: thousand_circles_disp special_in_def)
  have "sum_list (map (\<lambda>(i, j). disp_y thousand_circles i j c) (scanned s e 1000))
          = (if s \<le> 0 \<and> 0 < e then disp_y thousand_circles 0 999 c else 0)
            + (if s \<le> 999 \<and> 999 < e then disp_y thousand_circles 999 0 c else 0)"
    using assms by (intro sum_two_pairs) (simp_all add: thousand_circles_disp_zero)
  then show "sum_list (map (\<lambda>(i, j). disp_y thousand_circles i j c) (scanned s e 1000)) = 0"
    by (simp add: thousand_circles_disp)
qed

lemma thousand_circles_count:
  assumes "e \<le> 1000"
  shows "length (filter (\<lambda>(i, j). overlapping thousand_circles i j) (scanned s e 1000))
           = special_in s e"
proof -
  have "sum_list (map (\<lambda>(i, j). if overlapping thousand_circles i j then 1 else 0) (scanned s e 1000))
          = (if s \<le> 0 \<and> 0 < e then (if overlapping thousand_circles 0 999 then 1 else 0) else 0)
            + (if s \<le> 999 \<and> 999 < e then (if overlapping thousand_circles 999 0 then 1 else 0) else (0::nat))"
    using assms
    by (intro sum_two_pairs) (simp_all add: thousand_circles_def thousand_overlapping)
  then show ?thesis
    by (simp add: length_filter_sum thousand_circles_overlapping special_in_def case_prod_unfold)
qed

lemma thousand_circles_accum:
  assumes "e \<le> 1000"
  shows "accum thousand_circles (scanned s e 1000)
           = thousand 100 108 (- (8 * real (special_in s e))) (8 * real (special_in s e))"
proof (rule nth_equalityI)
  show "length (accum thousand_circles (scanned s e 1000))
          = length (thousand 100 108 (- (8 * real (special_in s e))) (8 * real (special_in s e)))"
    by (simp add: thousand_circles_def)
next
  fix c
  assume "c < length (accum thousand_circles (scanned s e 1000))"
  then have c: "c < 1000" by (simp add: thousand_circles_def)
  then have "c < length thousand_circles" by (simp add: thousand_circles_def)
  then have "accum thousand_circles (scanned s e 1000) ! c
        = (thousand_circles ! c)
            \<lparr>dx := dx (thousand_circles ! c)
                    + ((if c = 999 then 8 * real (special_in s e) else 0)
                       - (if c = 0 then 8 * real (special_in s e) else 0)),
              dy := dy (thousand_circles ! c) + 0\<rparr>"
    using thousand_circles_sums [OF assms, of c s]
    by (simp add: nth_accum thousand_circles_def)
  also have "\<dots> = thousand 100 108 (- (8 * real (special_in s e))) (8 * real (special_in s e)) ! c"
    using c by (simp add: thousand_circles_def nth_thousand grid_circle_def)
  finally show "accum thousand_circles (scanned s e 1000) ! c
        = thousand 100 108 (- (8 * real (special_in s e))) (8 * real (special_in s e)) ! c" .
qed

lemma length_thousand_circles: "length thousand_circles = 1000"
  by (simp add: thousand_circles_def)

lemma reset_thousand_circles: "reset_displacements thousand_circles = thousand_circles"
  by (simp add: thousand_circles_def reset_thousand)

lemma local_result_thousand:
  assumes "rank < comm_size"
  shows "local_result comm_size thousand_circles rank =
           (special_in (share_start rank 1000 comm_size) (share_end rank 1000 comm_size),
            thousand 100 108
              (- (8 * real (special_in (share_start rank 1000 comm_size) (share_end rank 1000 comm_size))))
              (8 * real (special_in (share_start rank 1000 comm_size) (share_end rank 1000 comm_size))))"
proof -
  have e: "share_end rank 1000 comm_size \<le> 1000"
    using assms by (rule share_end_le_ncircles)
  show ?thesis
    unfolding local_result_def local_pairs_def reset_thousand_circles length_thousand_circles
    by (simp add: thousand_circles_count [OF e] thousand_circles_accum [OF e])
qed

lemma upt_0_4: "[0..<4] = [0, 1, 2, 3]"
  by code_simp

lemma special_in_values:
  "special_in 0 1000 = 2" "special_in 0 250 = 1" "special_in 250 500 = 0"
  "special_in 500 750 = 0" "special_in 750 1000 = 1"
  by (simp_all add: special_in_def)

lemma locals_thousand_1:
  "map (local_result 1 thousand_circles) [0..<1] = [(2, thousand 100 108 (- 16) 16)]"
  by (simp add: local_result_thousand share_start_def share_end_def special_in_values)

lemma locals_thousand_4:
  "map (local_result 4 thousand_circles) [0..<4] =
     [(1, thousand 100 108 (- 8) 8), (0, thousand 100 108 0 0),
      (0, thousand 100 108 0 0), (1, thousand 100 108 (- 8) 8)]"
  unfolding upt_0_4
  by (simp add: local_result_thousand share_start_def share_end_def special_in_values)

lemma iteration_thousand_1:
  "iteration 1000 (replicate 1 thousand_circles) =
     Inr (2, replicate 1 (thousand 84 124 (- 16) 16))"
proof -
  have "gather_displacements 1000 [(2, thousand 100 108 (- 16) 16)]
          = replicate 1 (thousand 100 108 (- 16) 16)"
    using Allgather_replicate [of 1000 1 "thousand 100 108 (- 16) 16"]
    by (simp add: gather_displacements_def)
  moreover have "iteration 1000 (replicate 1 thousand_circles) =
           Inr (sum_list (map (\<lambda>rank. fst (local_result 1 thousand_circles rank)) [0..<1]),
                replicate 1
                  (move_circles
                     (gather_displacements 1000
                        (map (local_result 1 thousand_circles) [0..<1]) ! 0)))"
    by (rule iteration_replicate) (simp_all add: length_thousand_circles)
  ultimately show ?thesis
    by (simp add: locals_thousand_1 [simplified] move_thousand)
qed

lemma gather_thousand_4:
  "gather_displacements 1000
     [(1, thousand 100 108 (- 8) 8), (0, thousand 100 108 0 0),
      (0, thousand 100 108 0 0), (1, thousand 100 108 (- 8) 8)] ! 0
   = thousand 100 108 (- 8) 8"
proof -
  let ?bufs = "[thousand 100 108 (- 8) 8, thousand 100 108 0 0,
                thousand 100 108 0 0, thousand 100 108 (- 8) 8]"
  have g: "gather_displacements 1000
     [(1, thousand 100 108 (- 8) 8), (0, thousand 100 108 0 0),
      (0, thousand 100 108 0 0), (1, thousand 100 108 (- 8) 8)] ! 0
     = map (\<lambda>c. if c < 4 * 250 then ?bufs ! (c div 250) ! c else ?bufs ! 0 ! c) [0..<1000]"
    by (simp add: gather_displacements_def nth_Allgather)
  have "map (\<lambda>c. if c < 4 * 250 then ?bufs ! (c div 250) ! c else ?bufs ! 0 ! c) [0..<1000]
        = thousand 100 108 (- 8) 8"
  proof (rule nth_equalityI)
    show "length (map (\<lambda>c. if c < 4 * 250 then ?bufs ! (c div 250) ! c else ?bufs ! 0 ! c) [0..<1000])
          = length (thousand 100 108 (- 8) 8)"
      by simp
  next
    fix c
    assume "c < length (map (\<lambda>c. if c < 4 * 250 then ?bufs ! (c div 250) ! c else ?bufs ! 0 ! c)
                          [0..<1000])"
    then have c: "c < 1000" by simp
    then consider "c div 250 = 0" | "c div 250 = 1" "c \<noteq> 0" "c \<noteq> 999"
      | "c div 250 = 2" "c \<noteq> 0" "c \<noteq> 999" | "c div 250 = 3" "c \<noteq> 0"
      by (cases "c = 0"; cases "c = 999") (simp_all, arith+)
    then have "?bufs ! (c div 250) ! c = thousand 100 108 (- 8) 8 ! c"
    proof cases
      case 1
      then show ?thesis by simp
    next
      case 2
      then show ?thesis using c by (simp add: nth_thousand)
    next
      case 3
      then show ?thesis using c by (simp add: nth_thousand)
    next
      case 4
      then show ?thesis using c by (simp add: nth_thousand)
    qed
    then show "map (\<lambda>c. if c < 4 * 250 then ?bufs ! (c div 250) ! c else ?bufs ! 0 ! c) [0..<1000] ! c
                 = thousand 100 108 (- 8) 8 ! c"
      using c by simp
  qed
  with g show ?thesis by simp
qed

lemma iteration_thousand_4:
  "iteration 1000 (replicate 4 thousand_circles) =
     Inr (2, replicate 4 (thousand 92 116 (- 8) 8))"
proof -
  have i: "iteration 1000 (replicate 4 thousand_circles) =
           Inr (sum_list (map (\<lambda>rank. fst (local_result 4 thousand_circles rank)) [0..<4]),
                replicate 4
                  (move_circles
                     (gather_displacements 1000
                        (map (local_result 4 thousand_circles) [0..<4]) ! 0)))"
    by (rule iteration_replicate) (simp_all add: length_thousand_circles)
  have "map (\<lambda>rank. fst (local_result 4 thousand_circles rank)) [0..<4]
          = map fst (map (local_result 4 thousand_circles) [0..<4])"
    by simp
  then have t: "sum_list (map (\<lambda>rank. fst (local_result 4 thousand_circles rank)) [0..<4]) = 2"
    unfolding locals_thousand_4 by simp
  have m: "move_circles (thousand 100 108 (- 8) 8) = thousand 92 116 (- 8) 8"
    by (simp add: move_thousand)
  show ?thesis
    unfolding i t locals_thousand_4 gather_thousand_4 m ..
qed

lemma quiet_thousand:
  assumes "20 \<le> \<bar>xb - xa\<bar>"
  shows "quiet (thousand xa xb da db)"
  using assms EPSILON_pos by (simp add: quiet_def thousand_overlapping)

lemma hundred: "(100::nat) = Suc 99"
  by simp

lemma run_thousand_1:
  "run 1 100 thousand_circles = Inr (2 # replicate 99 0, replicate 1 (thousand 84 124 0 0))"
proof -
  have q: "quiet (thousand 84 124 (- 16) 16)"
    by (rule quiet_thousand) simp
  have l: "iterations_loop 1000 99 (replicate 1 (thousand 84 124 (- 16) 16))
             = Inr (replicate 99 0, replicate 1 (thousand 84 124 0 0))"
    using iterations_loop_quiet [OF _ q, of 1 1000 99] by (simp add: reset_thousand)
  have "iterations_loop 1000 (Suc 99) (replicate 1 thousand_circles)
          = Inr (2 # replicate 99 0, replicate 1 (thousand 84 124 0 0))"
    unfolding iterations_loop.simps iteration_thousand_1 ebind_Inr prod.case l
    by (rule refl)
  then show ?thesis
    unfolding run_def length_thousand_circles hundred .
qed

lemma run_thousand_4:
  "run 4 100 thousand_circles = Inr (2 # replicate 99 0, replicate 4 (thousand 92 116 0 0))"
proof -
  have q: "quiet (thousand 92 116 (- 8) 8)"
    by (rule quiet_thousand) simp
  have l: "iterations_loop 1000 99 (replicate 4 (thousand 92 116 (- 8) 8))
             = Inr (replicate 99 0, replicate 4 (thousand 92 116 0 0))"
    using iterations_loop_quiet [OF _ q, of 4 1000 99] by (simp add: reset_thousand)
  have "iterations_loop 1000 (Suc 99) (replicate 4 thousand_circles)
          = Inr (2 # replicate 99 0, replicate 4 (thousand 92 116 0 0))"
    unfolding iterations_loop.simps iteration_thousand_4 ebind_Inr prod.case l
    by (rule refl)
  then show ?thesis
    unfolding run_def length_thousand_circles hundred .
qed

text \<open>
  Claim C3, on the code. From the array \<open>thousand_circles\<close> of 1000 circles, in which only
  circles 0 and 999 overlap, 100 iterations report the same totals with one rank and
  with four, but end in different positions: circle 0 ends at \<open>x = 84\<close> with one rank
  and at \<open>x = 92\<close> with four, circle 999 at \<open>x = 124\<close> and at \<open>x = 116\<close>.
\<close>

theorem ranks_change_final_positions:
  "length thousand_circles = 1000
   \<and> run 1 100 thousand_circles = Inr (2 # replicate 99 0, replicate 1 (thousand 84 124 0 0))
   \<and> run 4 100 thousand_circles = Inr (2 # replicate 99 0, replicate 4 (thousand 92 116 0 0))
   \<and> x (thousand 84 124 0 0 ! 0) = 84 \<and> x (thousand 92 116 0 0 ! 0) = 92
   \<and> x (thousand 84 124 0 0 ! 999) = 124 \<and> x (thousand 92 116 0 0 ! 999) = 116"
  using run_thousand_1 run_thousand_4
  by (simp add: length_thousand_circles nth_thousand)

section \<open>The reported total, for every array and every number of ranks\<close>

lemma hypotf_minus: "hypotf (- a) (- b) = hypotf a b"
  by (simp add: hypotf_def)

lemma dist_ij_sym: "dist_ij cs i j = dist_ij cs j i"
  using hypotf_minus [of "x (cs ! j) - x (cs ! i)" "y (cs ! j) - y (cs ! i)"]
  by (simp add: dist_ij_def)

lemma overlapping_sym: "overlapping cs i j = overlapping cs j i"
  using dist_ij_sym [of cs i j] by (auto simp: overlapping_def add.commute)

lemma count_scanned:
  "length (filter (\<lambda>(i, j). P i j) (scanned s e n))
     = (\<Sum>i = s..<e. \<Sum>j = 0..<n. if P i j then 1 else 0)"
  using sum_list_scanned [of "\<lambda>i j. if P i j then 1 else (0::nat)" s e n]
  by (simp add: length_filter_sum case_prod_unfold)

lemma sum_over_ranks:
  fixes g :: "nat \<Rightarrow> nat"
  shows "k \<le> w \<Longrightarrow>
     (\<Sum>rank = 0..<k. \<Sum>i = share_start rank n w..<share_end rank n w. g i)
       = (\<Sum>i = 0..<share_start k n w. g i)"
proof (induction k)
  case 0
  then show ?case by (simp add: share_start_0)
next
  case (Suc k)
  have "(\<Sum>i = 0..<share_start k n w. g i) + (\<Sum>i = share_start k n w..<share_start (Suc k) n w. g i)
          = (\<Sum>i = 0..<share_start (Suc k) n w. g i)"
    by (rule sum.atLeastLessThan_concat) (simp_all add: share_start_mono)
  then show ?case
    using Suc by (simp add: share_end_is_next_start)
qed

lemma ordered_is_twice_unordered:
  "(\<Sum>i = 0..<n. \<Sum>j = 0..<n. if overlapping cs i j then 1 else 0)
     = 2 * (\<Sum>i = 0..<n. \<Sum>j = 0..<n. if i < j \<and> overlapping cs i j then 1 else (0::nat))"
proof -
  let ?lt = "\<lambda>i j. if i < j \<and> overlapping cs i j then 1 else (0::nat)"
  have split: "\<And>i j. (if overlapping cs i j then 1 else (0::nat)) = ?lt i j + ?lt j i"
    using overlapping_sym [of cs] by (auto simp: overlapping_def)
  have "(\<Sum>i = 0..<n. \<Sum>j = 0..<n. ?lt j i) = (\<Sum>i = 0..<n. \<Sum>j = 0..<n. ?lt i j)"
    by (rule sum.swap)
  then show ?thesis
    by (simp add: split sum.distrib)
qed

text \<open>
  The total that rank 0 reports for an iteration is, for every array and every number
  of ranks whose product stays in the range of \<^verbatim>\<open>int\<close>, twice the number of unordered
  overlapping pairs.
\<close>

lemma total_is_twice_unordered:
  assumes "0 < comm_size" "comm_size * length cs \<le> 2147483647"
  shows "\<exists>w. iteration (length cs) (replicate comm_size cs) = Inr (2 * unordered_overlaps cs, w)"
proof -
  let ?n = "length cs"
  let ?ov = "\<lambda>i j. if overlapping cs i j then 1 else (0::nat)"
  have ranks: "\<And>rank. rank < comm_size \<Longrightarrow>
          fst (local_result comm_size cs rank)
            = (\<Sum>i = share_start rank ?n comm_size..<share_end rank ?n comm_size. \<Sum>j = 0..<?n. ?ov i j)"
  proof -
    fix rank
    assume rk: "rank < comm_size"
    have "fst (local_result comm_size cs rank)
            = (\<Sum>i = share_start rank ?n comm_size..<share_end rank ?n comm_size.
                 \<Sum>j = 0..<?n. if overlapping (reset_displacements cs) i j then 1 else 0)"
      by (simp add: local_result_def local_pairs_def count_scanned)
    also have "\<dots> = (\<Sum>i = share_start rank ?n comm_size..<share_end rank ?n comm_size.
                        \<Sum>j = 0..<?n. ?ov i j)"
    proof (intro sum.cong refl)
      fix i j
      assume "i \<in> {share_start rank ?n comm_size..<share_end rank ?n comm_size}" "j \<in> {0..<?n}"
      then have "i < ?n" "j < ?n"
        using share_end_le_ncircles [OF rk, of ?n] by auto
      then show "(if overlapping (reset_displacements cs) i j then 1 else 0) = ?ov i j"
        by (simp add: geometry_reset)
    qed
    finally show "fst (local_result comm_size cs rank)
            = (\<Sum>i = share_start rank ?n comm_size..<share_end rank ?n comm_size. \<Sum>j = 0..<?n. ?ov i j)" .
  qed
  have "sum_list (map (\<lambda>rank. fst (local_result comm_size cs rank)) [0..<comm_size])
          = (\<Sum>rank = 0..<comm_size. fst (local_result comm_size cs rank))"
    by (simp add: interv_sum_list_conv_sum_set_nat)
  also have "\<dots> = (\<Sum>rank = 0..<comm_size.
                       \<Sum>i = share_start rank ?n comm_size..<share_end rank ?n comm_size.
                          \<Sum>j = 0..<?n. ?ov i j)"
    by (intro sum.cong refl) (simp add: ranks)
  also have "\<dots> = (\<Sum>i = 0..<share_start comm_size ?n comm_size. \<Sum>j = 0..<?n. ?ov i j)"
    by (rule sum_over_ranks) simp
  also have "\<dots> = (\<Sum>i = 0..<?n. \<Sum>j = 0..<?n. ?ov i j)"
    using assms(1) by (simp add: share_start_last)
  also have "\<dots> = 2 * unordered_overlaps cs"
    unfolding ordered_is_twice_unordered unordered_overlaps_def
    using count_scanned [of "\<lambda>i j. i < j \<and> overlapping cs i j" 0 ?n ?n]
    by (simp add: scanned_def)
  finally show ?thesis
    by (simp add: iteration_replicate [OF assms])
qed

end
